theory Spec2Isabelle
  imports Main
begin

section \<open>Exceptions\<close>

text \<open>
  An exception derived from Python's \<^verbatim>\<open>Exception\<close> (\<^verbatim>\<open>ValueError\<close>, an httpx
  transport error, ...), named by its class. \<^verbatim>\<open>CancelledError\<close> derives from
  \<^verbatim>\<open>BaseException\<close> and is only raised by task cancellation, which the worker steps
  below model on their own.
\<close>

datatype exception = Exception string

section \<open>The scope filter: \<^verbatim>\<open>UrlFilterer\<close>\<close>

subsection \<open>The library calls of \<^verbatim>\<open>filter_url\<close>\<close>

text \<open>
  \<^verbatim>\<open>urllib.parse\<close> is not part of the repository. \<^verbatim>\<open>filter_url\<close> is modelled over
  any implementation of the three functions it calls; each may raise (\<^verbatim>\<open>urlsplit\<close>
  raises \<^verbatim>\<open>ValueError\<close> on an unbalanced bracket in the host).
\<close>

record ParseResult =
  scheme :: string
  netloc :: string
  path :: string
  params :: string
  query :: string
  fragment :: string

record urllib =
  urljoin :: "string \<Rightarrow> string \<Rightarrow> exception + string"
  urldefrag :: "string \<Rightarrow> exception + string \<times> string"
  urlparse :: "string \<Rightarrow> exception + ParseResult"

text \<open>
  \<^verbatim>\<open>pathlib.Path(p).suffix\<close> (POSIX flavour, CPython 3.11): the path is cut at
  \<^verbatim>\<open>/\<close>, empty and \<^verbatim>\<open>.\<close> components are dropped, \<^verbatim>\<open>name\<close> is the last component
  left (or the empty string), and the suffix starts at the last dot of the name unless
  that dot is the name's first or last character.
\<close>

primrec str_split :: "char \<Rightarrow> string \<Rightarrow> string list" where
  "str_split sep [] = [[]]"
| "str_split sep (c # cs) =
     (if c = sep then [] # str_split sep cs
      else (c # hd (str_split sep cs)) # tl (str_split sep cs))"

definition path_name :: "string \<Rightarrow> string" where
  "path_name p =
     (case filter (\<lambda>x. x \<noteq> [] \<and> x \<noteq> ''.'') (str_split CHR ''/'' p) of
        [] \<Rightarrow> []
      | x # xs \<Rightarrow> last (x # xs))"

definition rfind :: "char \<Rightarrow> string \<Rightarrow> int" where
  "rfind c s =
     (if c \<in> set s then int (length s) - 1 - int (length (takeWhile (\<lambda>x. x \<noteq> c) (rev s)))
      else - 1)"

definition suffix :: "string \<Rightarrow> string" where
  "suffix p =
     (let name = path_name p; i = rfind CHR ''.'' name
      in if 0 < i \<and> i < int (length name) - 1 then drop (nat i) name else [])"

subsection \<open>\<^verbatim>\<open>UrlFilterer.filter_url\<close>\<close>

text \<open>An allow-list is a set of strings, or \<^verbatim>\<open>None\<close> for no restriction.\<close>

record UrlFilterer =
  allowed_domains :: "string set option"
  allowed_schemes :: "string set option"
  allowed_filetypes :: "string set option"

definition filter_url ::
  "urllib \<Rightarrow> UrlFilterer \<Rightarrow> string \<Rightarrow> string \<Rightarrow> exception + string option" where
  "filter_url L self base url =
     (case urljoin L base url of
        Inl e \<Rightarrow> Inl e
      | Inr joined \<Rightarrow>
     (case urldefrag L joined of
        Inl e \<Rightarrow> Inl e
      | Inr (url', frag) \<Rightarrow>
     (case urlparse L url' of
        Inl e \<Rightarrow> Inl e
      | Inr parsed \<Rightarrow>
          if (case allowed_schemes self of None \<Rightarrow> False | Some S \<Rightarrow> scheme parsed \<notin> S)
          then Inr None
          else if (case allowed_domains self of None \<Rightarrow> False | Some D \<Rightarrow> netloc parsed \<notin> D)
          then Inr None
          else
            (let ext = suffix (path parsed)
             in if (case allowed_filetypes self of None \<Rightarrow> False | Some T \<Rightarrow> ext \<notin> T)
                then Inr None
                else Inr (Some url')))))"

subsection \<open>A model of \<^verbatim>\<open>urllib.parse\<close>\<close>

text \<open>
  The functions of CPython 3.11's \<^verbatim>\<open>urllib/parse.py\<close> that \<^verbatim>\<open>filter_url\<close> calls, for
  \<^verbatim>\<open>str\<close> arguments made of the characters \<open>url_chars\<close>: ASCII letters, digits and the
  URL punctuation without brackets. On these the library strips nothing from the
  argument, checks no bracketed host and normalises no Unicode, so that what is left of
  \<^verbatim>\<open>urlsplit\<close>, \<^verbatim>\<open>urlparse\<close>, \<^verbatim>\<open>urlunsplit\<close>, \<^verbatim>\<open>urlunparse\<close>, \<^verbatim>\<open>urljoin\<close> and
  \<^verbatim>\<open>urldefrag\<close> is translated line by line. The model is used to run the filter on
  concrete addresses; the theorems about \<open>filter_url\<close> hold for every library.
\<close>

definition ascii_lowercase :: string where
  "ascii_lowercase = ''abcdefghijklmnopqrstuvwxyz''"

definition ascii_uppercase :: string where
  "ascii_uppercase = ''ABCDEFGHIJKLMNOPQRSTUVWXYZ''"

definition scheme_chars :: string where
  "scheme_chars = ascii_lowercase @ ascii_uppercase @ ''0123456789+-.''"

definition url_chars :: string where
  "url_chars = ascii_lowercase @ ascii_uppercase @ ''0123456789-._~:/?#@!$&()*+,;=%''"

definition modelled :: "string \<Rightarrow> bool" where
  "modelled s = list_all (\<lambda>c. c \<in> set url_chars) s"

definition lower :: "string \<Rightarrow> string" where
  "lower s =
     map (\<lambda>c. case map_of (zip ascii_uppercase ascii_lowercase) c of
                  None \<Rightarrow> c | Some d \<Rightarrow> d) s"

definition uses_relative :: "string list" where
  "uses_relative = ['''', ''ftp'', ''http'', ''gopher'', ''nntp'', ''imap'',
     ''wais'', ''file'', ''https'', ''shttp'', ''mms'',
     ''prospero'', ''rtsp'', ''rtsps'', ''rtspu'', ''sftp'',
     ''svn'', ''svn+ssh'', ''ws'', ''wss'']"

definition uses_netloc :: "string list" where
  "uses_netloc = ['''', ''ftp'', ''http'', ''gopher'', ''nntp'', ''telnet'',
     ''imap'', ''wais'', ''file'', ''mms'', ''https'', ''shttp'',
     ''snews'', ''prospero'', ''rtsp'', ''rtsps'', ''rtspu'', ''rsync'',
     ''svn'', ''svn+ssh'', ''sftp'', ''nfs'', ''git'', ''git+ssh'',
     ''ws'', ''wss'']"

definition uses_params :: "string list" where
  "uses_params = ['''', ''ftp'', ''hdl'', ''prospero'', ''http'', ''imap'',
     ''https'', ''shttp'', ''rtsp'', ''rtsps'', ''rtspu'', ''sip'',
     ''sips'', ''mms'', ''sftp'', ''tel'']"

text \<open>\<^verbatim>\<open>s.split(c, 1)\<close> for a \<open>c\<close> that occurs in \<open>s\<close>: the text before and after its first occurrence.\<close>

definition split_first :: "char \<Rightarrow> string \<Rightarrow> string \<times> string" where
  "split_first c s = (takeWhile (\<lambda>x. x \<noteq> c) s, drop 1 (dropWhile (\<lambda>x. x \<noteq> c) s))"

definition splitnetloc :: "string \<Rightarrow> string \<times> string" where
  "splitnetloc s =
     (takeWhile (\<lambda>x. x \<notin> set ''/?#'') (drop 2 s), dropWhile (\<lambda>x. x \<notin> set ''/?#'') (drop 2 s))"

definition urlsplit :: "string \<Rightarrow> string \<Rightarrow> string \<times> string \<times> string \<times> string \<times> string" where
  "urlsplit url0 scheme0 =
     (let pre = takeWhile (\<lambda>x. x \<noteq> CHR '':'') url0;
          (sch, u1) =
            (if CHR '':'' \<in> set url0 \<and> pre \<noteq> [] \<and> hd pre \<in> set (ascii_lowercase @ ascii_uppercase)
                \<and> list_all (\<lambda>c. c \<in> set scheme_chars) pre
             then (lower pre, drop (length pre + 1) url0)
             else (scheme0, url0));
          (nl, u2) = (if take 2 u1 = ''//'' then splitnetloc u1 else ([], u1));
          (u3, frag) = (if CHR ''#'' \<in> set u2 then split_first CHR ''#'' u2 else (u2, []));
          (u4, qry) = (if CHR ''?'' \<in> set u3 then split_first CHR ''?'' u3 else (u3, []))
      in (sch, nl, u4, qry, frag))"

definition splitparams :: "string \<Rightarrow> string \<times> string" where
  "splitparams u =
     (let seg = rev (takeWhile (\<lambda>x. x \<noteq> CHR ''/'') (rev u));
          dir = take (length u - length seg) u
      in if CHR '';'' \<in> set seg
         then (dir @ takeWhile (\<lambda>x. x \<noteq> CHR '';'') seg, drop 1 (dropWhile (\<lambda>x. x \<noteq> CHR '';'') seg))
         else (u, []))"

definition py_urlparse :: "string \<Rightarrow> string \<Rightarrow> ParseResult" where
  "py_urlparse url0 scheme0 =
     (let (sch, nl, u, qry, frag) = urlsplit url0 scheme0;
          (u', prm) = (if sch \<in> set uses_params \<and> CHR '';'' \<in> set u then splitparams u else (u, []))
      in \<lparr>scheme = sch, netloc = nl, path = u', params = prm, query = qry, fragment = frag\<rparr>)"

definition urlunsplit :: "string \<times> string \<times> string \<times> string \<times> string \<Rightarrow> string" where
  "urlunsplit c =
     (let (sch, nl, u, qry, frag) = c;
          u1 = (if nl \<noteq> [] \<or> (sch \<noteq> [] \<and> sch \<in> set uses_netloc) \<or> take 2 u = ''//''
                then ''//'' @ nl @ (if u \<noteq> [] \<and> take 1 u \<noteq> ''/'' then ''/'' @ u else u)
                else u);
          u2 = (if sch \<noteq> [] then sch @ '':'' @ u1 else u1);
          u3 = (if qry \<noteq> [] then u2 @ ''?'' @ qry else u2)
      in if frag \<noteq> [] then u3 @ ''#'' @ frag else u3)"

definition py_urlunparse :: "ParseResult \<Rightarrow> string" where
  "py_urlunparse p =
     urlunsplit (scheme p, netloc p,
       (if params p \<noteq> [] then path p @ '';'' @ params p else path p), query p, fragment p)"

fun str_join :: "string \<Rightarrow> string list \<Rightarrow> string" where
  "str_join sep [] = []"
| "str_join sep [x] = x"
| "str_join sep (x # y # ys) = x @ sep @ str_join sep (y # ys)"

text \<open>\<^verbatim>\<open>segments[1:-1] = filter(None, segments[1:-1])\<close>\<close>

definition drop_empty_inner :: "string list \<Rightarrow> string list" where
  "drop_empty_inner segments =
     (if length segments < 2 then segments
      else hd segments # filter (\<lambda>x. x \<noteq> []) (butlast (tl segments)) @ [last segments])"

definition resolve_segments :: "string list \<Rightarrow> string list" where
  "resolve_segments segments =
     (let resolved_path =
            foldl (\<lambda>acc seg. if seg = ''..'' then butlast acc
                              else if seg = ''.'' then acc else acc @ [seg]) [] segments
      in if last segments = ''.'' \<or> last segments = ''..'' then resolved_path @ [[]]
         else resolved_path)"

definition py_urljoin :: "string \<Rightarrow> string \<Rightarrow> string" where
  "py_urljoin base url =
     (if base = [] then url
      else if url = [] then base
      else
        (let b = py_urlparse base [];
             u = py_urlparse url (scheme b)
         in if scheme u \<noteq> scheme b \<or> scheme u \<notin> set uses_relative then url
            else if scheme u \<in> set uses_netloc \<and> netloc u \<noteq> [] then py_urlunparse u
            else
              (let nl = (if scheme u \<in> set uses_netloc then netloc b else netloc u)
               in if path u = [] \<and> params u = []
                  then py_urlunparse
                         (u\<lparr>netloc := nl, path := path b, params := params b,
                            query := (if query u = [] then query b else query u)\<rparr>)
                  else
                    (let parts = str_split CHR ''/'' (path b);
                         base_parts = (if last parts \<noteq> [] then butlast parts else parts);
                         segments =
                           (if take 1 (path u) = ''/'' then str_split CHR ''/'' (path u)
                            else drop_empty_inner (base_parts @ str_split CHR ''/'' (path u)));
                         joined = str_join ''/'' (resolve_segments segments)
                     in py_urlunparse
                          (u\<lparr>netloc := nl, path := (if joined = [] then ''/'' else joined)\<rparr>)))))"

definition py_urldefrag :: "string \<Rightarrow> string \<times> string" where
  "py_urldefrag url =
     (if CHR ''#'' \<in> set url
      then (let p = py_urlparse url [] in (py_urlunparse (p\<lparr>fragment := []\<rparr>), fragment p))
      else (url, []))"

text \<open>
  The library the model provides. An argument outside \<open>url_chars\<close> is answered with an
  exception that stands for "not covered by the model"; no theorem below runs the model
  there.
\<close>

definition py_urllib :: urllib where
  "py_urllib =
     \<lparr>urljoin = (\<lambda>base url. if modelled base \<and> modelled url then Inr (py_urljoin base url)
                             else Inl (Exception ''unmodelled'')),
      urldefrag = (\<lambda>url. if modelled url then Inr (py_urldefrag url)
                          else Inl (Exception ''unmodelled'')),
      urlparse = (\<lambda>url. if modelled url then Inr (py_urlparse url [])
                         else Inl (Exception ''unmodelled''))\<rparr>"

text \<open>
  The filter of \<^verbatim>\<open>main\<close>, run on the library model: a relative link with a fragment,
  found on a page of an allowed host, is resolved, loses its fragment and is accepted
  by the empty file type.
\<close>

definition main_filterer :: UrlFilterer where
  "main_filterer =
     \<lparr>allowed_domains = Some {''192.168.254.109:2368'', ''localhost''},
      allowed_schemes = Some {''http'', ''https''},
      allowed_filetypes = Some {''.html'', ''.php'', []}\<rparr>"

section \<open>The crawler: \<^verbatim>\<open>UrlParser\<close> and \<^verbatim>\<open>Crawler\<close>\<close>

subsection \<open>Collaborators\<close>

text \<open>
  What the crawler is constructed with or imports, and never changes:
  \<^item> \<open>client_get\<close> is \<^verbatim>\<open>self.client.get(url, follow_redirects=True)\<close>. It raises or returns
    a response, of which \<^verbatim>\<open>crawl\<close> reads \<^verbatim>\<open>str(response.url)\<close>, the address of the final
    response after redirects, and \<^verbatim>\<open>response.text\<close>. An address is requested at most
    once in a run, so a function of the address describes a run's answers.
  \<^item> \<open>crawler_filter_url\<close> is the callable \<^verbatim>\<open>self.filter_url\<close>
    (\<^verbatim>\<open>Callable[[str, str], str | None]\<close>); it may raise.
  \<^item> \<open>starttags\<close> is what \<^verbatim>\<open>html.parser.HTMLParser.feed\<close> reports of a document to
    \<^verbatim>\<open>handle_starttag\<close>: the start tags in order (a self-closing tag is reported as a
    start tag too), each with its attribute list. The value of an attribute without a
    value is \<^verbatim>\<open>None\<close>.
\<close>

record response =
  response_url :: string
  response_text :: string

record collaborators =
  client_get :: "string \<Rightarrow> exception + response"
  crawler_filter_url :: "string \<Rightarrow> string option \<Rightarrow> exception + string option"
  starttags :: "string \<Rightarrow> (string \<times> (string \<times> string option) list) list"

subsection \<open>\<^verbatim>\<open>UrlParser\<close>\<close>

text \<open>
  \<^verbatim>\<open>handle_starttag\<close>: the loop over the attributes of one tag, on the set
  \<^verbatim>\<open>self.found_links\<close>. An exception of the filter leaves the loop and \<^verbatim>\<open>feed\<close>.
\<close>

fun handle_attrs ::
  "(string \<Rightarrow> string option \<Rightarrow> exception + string option) \<Rightarrow> string \<Rightarrow>
   (string \<times> string option) list \<Rightarrow> string set \<Rightarrow> exception + string set" where
  "handle_attrs f base [] found_links = Inr found_links"
| "handle_attrs f base ((attr, url) # attrs) found_links =
     (if attr \<noteq> ''href'' then handle_attrs f base attrs found_links
      else (case f base url of
              Inl e \<Rightarrow> Inl e
            | Inr None \<Rightarrow> handle_attrs f base attrs found_links
            | Inr (Some url') \<Rightarrow> handle_attrs f base attrs (insert url' found_links)))"

definition handle_starttag ::
  "(string \<Rightarrow> string option \<Rightarrow> exception + string option) \<Rightarrow> string \<Rightarrow>
   string \<Rightarrow> (string \<times> string option) list \<Rightarrow> string set \<Rightarrow> exception + string set" where
  "handle_starttag f base tag attrs found_links =
     (if tag \<noteq> ''a'' then Inr found_links else handle_attrs f base attrs found_links)"

fun feed ::
  "(string \<Rightarrow> string option \<Rightarrow> exception + string option) \<Rightarrow> string \<Rightarrow>
   (string \<times> (string \<times> string option) list) list \<Rightarrow> string set \<Rightarrow> exception + string set" where
  "feed f base [] found_links = Inr found_links"
| "feed f base ((tag, attrs) # tags) found_links =
     (case handle_starttag f base tag attrs found_links of
        Inl e \<Rightarrow> Inl e
      | Inr found_links' \<Rightarrow> feed f base tags found_links')"

definition parse_links :: "collaborators \<Rightarrow> string \<Rightarrow> string \<Rightarrow> exception + string set" where
  "parse_links E base html = feed (crawler_filter_url E) base (starttags E html) {}"

subsection \<open>The crawler's state\<close>

text \<open>
  The fields of \<^verbatim>\<open>Crawler\<close> that change or configure a run. \<open>todo\<close> and
  \<open>unfinished_tasks\<close> are the \<^verbatim>\<open>asyncio.Queue\<close>: its items in arrival order and its
  count of items put and not yet marked done, on which \<^verbatim>\<open>join\<close> waits. \<open>done_set\<close> is
  \<^verbatim>\<open>self.done\<close>.
\<close>

record crawler =
  start_urls :: "string set"
  todo :: "string list"
  unfinished_tasks :: nat
  seen :: "string set"
  done_set :: "string set"
  num_workers :: int
  limit :: int
  total :: int

text \<open>
  \<^verbatim>\<open>Crawler.__init__\<close>, with \<^verbatim>\<open>client\<close> and \<^verbatim>\<open>filter_url\<close> kept in the collaborators. The
  constructor has no statement that raises: its result is never an exception.
\<close>

definition Crawler_init :: "string list \<Rightarrow> int \<Rightarrow> int \<Rightarrow> exception + crawler" where
  "Crawler_init urls workers lim =
     Inr \<lparr>start_urls = set urls, todo = [], unfinished_tasks = 0, seen = {}, done_set = {},
          num_workers = workers, limit = lim, total = 0\<rparr>"

text \<open>\<^verbatim>\<open>put_todo\<close>; the queue is unbounded, so \<^verbatim>\<open>put\<close> appends and counts the item.\<close>

definition put_todo :: "crawler \<Rightarrow> string \<Rightarrow> crawler" where
  "put_todo self url =
     (if total self \<ge> limit self then self
      else self\<lparr>total := total self + 1, todo := todo self @ [url],
                unfinished_tasks := unfinished_tasks self + 1\<rparr>)"

text \<open>
  \<^verbatim>\<open>on_found_links\<close>. Python iterates the set \<^verbatim>\<open>new\<close> in an order of its own choosing;
  \<open>order\<close> is that order, any list for which \<open>is_iteration new order\<close> holds. No awaited
  call in the body suspends, so the body runs as one step of the event loop. The
  coroutine has no \<^verbatim>\<open>return\<close> statement: its value is \<^verbatim>\<open>None\<close>.
\<close>

datatype pyvalue = PyNone | PySet "string set"

definition is_iteration :: "string set \<Rightarrow> string list \<Rightarrow> bool" where
  "is_iteration S order = (set order = S \<and> distinct order)"

definition on_found_links :: "crawler \<Rightarrow> string set \<Rightarrow> string list \<Rightarrow> pyvalue \<times> crawler" where
  "on_found_links self urls order =
     (let new = urls - seen self;
          self' = self\<lparr>seen := seen self \<union> new\<rparr>
      in (PyNone, foldl put_todo self' order))"

text \<open>\<^verbatim>\<open>asyncio.Queue.task_done\<close>\<close>

definition task_done :: "crawler \<Rightarrow> exception + crawler" where
  "task_done self =
     (if unfinished_tasks self \<le> 0 then Inl (Exception ''ValueError'')
      else Inr (self\<lparr>unfinished_tasks := unfinished_tasks self - 1\<rparr>))"

text \<open>
  \<^verbatim>\<open>crawl\<close>, from the moment \<^verbatim>\<open>client.get\<close> answers: the sleep and the request before it
  touch no field of the crawler. Every call that can raise comes before the first
  change of a field, so an exception leaves the crawler as it was.
\<close>

definition crawl :: "collaborators \<Rightarrow> crawler \<Rightarrow> string \<Rightarrow> string list \<Rightarrow> exception + crawler" where
  "crawl E self url order =
     (case client_get E url of
        Inl e \<Rightarrow> Inl e
      | Inr response \<Rightarrow>
     (case parse_links E (response_url response) (response_text response) of
        Inl e \<Rightarrow> Inl e
      | Inr found_links \<Rightarrow>
          (let self' = snd (on_found_links self found_links order)
           in Inr (self'\<lparr>done_set := insert url (done_set self')\<rparr>))))"

text \<open>
  \<^verbatim>\<open>process_one\<close> after \<^verbatim>\<open>todo.get()\<close> has returned \<open>url\<close>: \<^verbatim>\<open>except Exception\<close> swallows
  what \<^verbatim>\<open>crawl\<close> raises, \<^verbatim>\<open>finally\<close> marks the item done. The result is the crawler
  and the exception that leaves \<^verbatim>\<open>process_one\<close>, if any.
\<close>

definition process_one ::
  "collaborators \<Rightarrow> crawler \<Rightarrow> string \<Rightarrow> string list \<Rightarrow> crawler \<times> exception option" where
  "process_one E self url order =
     (let self' = (case crawl E self url order of Inl (Exception _) \<Rightarrow> self | Inr s \<Rightarrow> s)
      in (case task_done self' of
            Inl e \<Rightarrow> (self', Some e)
          | Inr self'' \<Rightarrow> (self'', None)))"

subsection \<open>The event loop: \<^verbatim>\<open>run\<close> and the \<^verbatim>\<open>worker\<close> tasks\<close>

text \<open>
  A task runs from one suspension to the next without interruption. \<^verbatim>\<open>run\<close> suspends in
  \<^verbatim>\<open>todo.join()\<close>; a worker suspends in \<^verbatim>\<open>todo.get()\<close>, in \<^verbatim>\<open>asyncio.sleep\<close> and in
  \<^verbatim>\<open>client.get\<close>. A worker ends when it returns on \<^verbatim>\<open>CancelledError\<close> (or is cancelled
  before its first step), or when an exception other than that leaves \<^verbatim>\<open>process_one\<close>.
\<close>

datatype run_task = Run_Start | Run_Join | Run_Returned

datatype worker = W_Get | W_Sleep string | W_Fetch string | W_Returned | W_Raised exception

record system =
  crawler_state :: crawler
  run_state :: run_task
  workers :: "worker list"

definition initial :: "crawler \<Rightarrow> system" where
  "initial s = \<lparr>crawler_state = s, run_state = Run_Start, workers = []\<rparr>"

text \<open>The addresses a step appends to the queue.\<close>

definition enqueued :: "crawler \<Rightarrow> crawler \<Rightarrow> string list" where
  "enqueued s s' = drop (length (todo s)) (todo s')"

text \<open>The set \<^verbatim>\<open>new\<close> that \<^verbatim>\<open>on_found_links\<close> computes when \<^verbatim>\<open>crawl\<close> reaches it.\<close>

definition new_links :: "collaborators \<Rightarrow> crawler \<Rightarrow> string \<Rightarrow> string set" where
  "new_links E self url =
     (case client_get E url of
        Inl e \<Rightarrow> {}
      | Inr response \<Rightarrow>
     (case parse_links E (response_url response) (response_text response) of
        Inl e \<Rightarrow> {}
      | Inr found_links \<Rightarrow> found_links - seen self))"

text \<open>
  One step of the event loop, labelled with the addresses it enqueues.
  \<^item> \<open>seed\<close>: \<^verbatim>\<open>run\<close> primes the queue, creates \<^verbatim>\<open>range(num_workers)\<close> workers and
    suspends in \<^verbatim>\<open>join\<close>.
  \<^item> \<open>join\<close>: no unfinished item is left; \<^verbatim>\<open>run\<close> resumes, cancels every worker and returns.
  \<^item> \<open>get\<close>, \<open>sleep\<close>, \<open>respond\<close>: a worker takes an address, wakes from the rate limit,
    and receives the answer of \<^verbatim>\<open>client.get\<close> and finishes \<^verbatim>\<open>process_one\<close>.
  \<^item> \<open>cancel_get\<close>, \<open>cancel_crawl\<close>: a cancelled worker receives \<^verbatim>\<open>CancelledError\<close> where
    it is suspended. Inside \<^verbatim>\<open>crawl\<close> the \<^verbatim>\<open>except Exception\<close> clause does not catch it,
    \<^verbatim>\<open>finally\<close> runs \<^verbatim>\<open>task_done\<close>, and \<^verbatim>\<open>worker\<close> returns.
\<close>

inductive step :: "collaborators \<Rightarrow> system \<Rightarrow> string list \<Rightarrow> system \<Rightarrow> bool" for E where
  seed:
    "run_state c = Run_Start \<Longrightarrow>
     is_iteration (start_urls (crawler_state c) - seen (crawler_state c)) order \<Longrightarrow>
     s' = snd (on_found_links (crawler_state c) (start_urls (crawler_state c)) order) \<Longrightarrow>
     step E c (enqueued (crawler_state c) s')
       \<lparr>crawler_state = s', run_state = Run_Join,
        workers = replicate (nat (num_workers s')) W_Get\<rparr>"
| join:
    "run_state c = Run_Join \<Longrightarrow> unfinished_tasks (crawler_state c) = 0 \<Longrightarrow>
     step E c [] (c\<lparr>run_state := Run_Returned\<rparr>)"
| get:
    "run_state c = Run_Join \<Longrightarrow> i < length (workers c) \<Longrightarrow> workers c ! i = W_Get \<Longrightarrow>
     todo (crawler_state c) = url # rest \<Longrightarrow>
     step E c []
       (c\<lparr>crawler_state := (crawler_state c)\<lparr>todo := rest\<rparr>,
          workers := (workers c)[i := W_Sleep url]\<rparr>)"
| sleep:
    "run_state c = Run_Join \<Longrightarrow> i < length (workers c) \<Longrightarrow> workers c ! i = W_Sleep url \<Longrightarrow>
     step E c [] (c\<lparr>workers := (workers c)[i := W_Fetch url]\<rparr>)"
| respond:
    "run_state c = Run_Join \<Longrightarrow> i < length (workers c) \<Longrightarrow> workers c ! i = W_Fetch url \<Longrightarrow>
     is_iteration (new_links E (crawler_state c) url) order \<Longrightarrow>
     process_one E (crawler_state c) url order = (s', exc) \<Longrightarrow>
     step E c (enqueued (crawler_state c) s')
       (c\<lparr>crawler_state := s',
          workers := (workers c)[i := (case exc of None \<Rightarrow> W_Get | Some e \<Rightarrow> W_Raised e)]\<rparr>)"
| cancel_get:
    "run_state c = Run_Returned \<Longrightarrow> i < length (workers c) \<Longrightarrow> workers c ! i = W_Get \<Longrightarrow>
     step E c [] (c\<lparr>workers := (workers c)[i := W_Returned]\<rparr>)"
| cancel_crawl:
    "run_state c = Run_Returned \<Longrightarrow> i < length (workers c) \<Longrightarrow>
     workers c ! i = W_Sleep url \<or> workers c ! i = W_Fetch url \<Longrightarrow>
     step E c []
       (case task_done (crawler_state c) of
          Inl e \<Rightarrow> c\<lparr>workers := (workers c)[i := W_Raised e]\<rparr>
        | Inr s' \<Rightarrow> c\<lparr>crawler_state := s', workers := (workers c)[i := W_Returned]\<rparr>)"

text \<open>A run so far: the steps taken from a state, with every address enqueued on the way.\<close>

inductive execution :: "collaborators \<Rightarrow> system \<Rightarrow> string list \<Rightarrow> system \<Rightarrow> bool" for E where
  exec_start: "execution E c [] c"
| exec_step: "execution E c es c' \<Longrightarrow> step E c' es' c'' \<Longrightarrow> execution E c (es @ es') c''"

text \<open>\<^verbatim>\<open>run\<close> has returned and every worker has ended by returning.\<close>

definition stopped :: "system \<Rightarrow> bool" where
  "stopped c = (run_state c = Run_Returned \<and> list_all (\<lambda>w. w = W_Returned) (workers c))"

subsection \<open>What every step keeps\<close>

text \<open>
  The relation between the crawler before and after a step that enqueues \<open>es\<close>: the
  configuration is kept, the seen-set only grows, the addresses enqueued are distinct,
  new to the seen-set and in it afterwards, each adds one to \<open>total\<close>, and a step that
  enqueues ends within the limit.
\<close>

definition step_ok :: "crawler \<Rightarrow> string list \<Rightarrow> crawler \<Rightarrow> bool" where
  "step_ok s es s' \<longleftrightarrow>
     limit s' = limit s \<and> num_workers s' = num_workers s \<and> start_urls s' = start_urls s \<and>
     seen s \<subseteq> seen s' \<and> set es \<subseteq> seen s' - seen s \<and> distinct es \<and>
     total s' = total s + int (length es) \<and> (es = [] \<or> total s' \<le> limit s)"

subsection \<open>A small web\<close>

text \<open>
  Collaborators for running the crawler on concrete input: every address answers with
  itself as final address and as document, except \<^verbatim>\<open>X\<close>, whose request fails. Page
  \<^verbatim>\<open>A\<close> links to \<^verbatim>\<open>B\<close> and \<^verbatim>\<open>X\<close>, page \<^verbatim>\<open>B\<close> links back to \<^verbatim>\<open>A\<close>; the filter accepts
  every candidate as it is.
\<close>

definition example_web :: collaborators where
  "example_web =
     \<lparr>client_get = (\<lambda>url. if url = ''X'' then Inl (Exception ''ConnectError'')
                           else Inr \<lparr>response_url = url, response_text = url\<rparr>),
      crawler_filter_url = (\<lambda>base url. Inr url),
      starttags = (\<lambda>html.
        if html = ''A'' then [(''a'', [(''href'', Some ''B''), (''class'', Some ''nav'')]),
                              (''p'', []),
                              (''a'', [(''href'', Some ''X'')])]
        else if html = ''B'' then [(''a'', [(''href'', Some ''A'')])]
        else [])\<rparr>"

text \<open>
  The states of a crawler started on \<^verbatim>\<open>A\<close> with one worker and a limit of two, by
  queue, unfinished count, seen-set, done-set, total, and the tasks' positions.
\<close>

definition example_system ::
  "string list \<Rightarrow> nat \<Rightarrow> string set \<Rightarrow> string set \<Rightarrow> int \<Rightarrow> run_task \<Rightarrow> worker list \<Rightarrow> system" where
  "example_system q u sn dn t r ws =
     \<lparr>crawler_state =
        \<lparr>start_urls = {''A''}, todo = q, unfinished_tasks = u, seen = sn, done_set = dn,
         num_workers = 1, limit = 2, total = t\<rparr>,
      run_state = r, workers = ws\<rparr>"

text \<open>
  A redirect: the request for \<^verbatim>\<open>http://localhost/old\<close> is answered from
  \<^verbatim>\<open>http://localhost/new/index.html\<close> with a page whose only link is the relative
  \<^verbatim>\<open>page.html\<close>. The filter callable is the \<^verbatim>\<open>filter_url\<close> of \<^verbatim>\<open>main\<close> on the library
  model; for a base that is not empty \<^verbatim>\<open>urljoin\<close> treats an attribute without a value
  like the empty string.
\<close>

definition redirect_web :: collaborators where
  "redirect_web =
     \<lparr>client_get = (\<lambda>url.
        if url = ''http://localhost/old''
        then Inr \<lparr>response_url = ''http://localhost/new/index.html'',
                  response_text = ''<a href=page.html>''\<rparr>
        else Inl (Exception ''ConnectError'')),
      crawler_filter_url = (\<lambda>base url.
        filter_url py_urllib main_filterer base (case url of None \<Rightarrow> [] | Some u \<Rightarrow> u)),
      starttags = (\<lambda>html.
        if html = ''<a href=page.html>'' then [(''a'', [(''href'', Some ''page.html'')])]
        else [])\<rparr>"

subsection \<open>Consistent states\<close>

text \<open>
  A worker is busy from \<^verbatim>\<open>todo.get()\<close> to \<^verbatim>\<open>todo.task_done()\<close> and holds its address
  meanwhile. In a consistent state the queue's unfinished count is the number of
  queued addresses plus that of busy workers, every queued or held address is in the
  seen-set, and the workers are where \<^verbatim>\<open>run\<close> allows them to be: none before \<^verbatim>\<open>run\<close>
  creates them, \<^verbatim>\<open>range(num_workers)\<close> of them afterwards, none ended while \<^verbatim>\<open>run\<close>
  waits in \<^verbatim>\<open>join\<close>, none busy once it has returned.
\<close>

definition busy :: "worker \<Rightarrow> bool" where
  "busy w = (case w of W_Sleep u \<Rightarrow> True | W_Fetch u \<Rightarrow> True | _ \<Rightarrow> False)"

definition held :: "worker \<Rightarrow> string set" where
  "held w = (case w of W_Sleep u \<Rightarrow> {u} | W_Fetch u \<Rightarrow> {u} | _ \<Rightarrow> {})"

definition consistent :: "system \<Rightarrow> bool" where
  "consistent c \<longleftrightarrow>
     finite (start_urls (crawler_state c)) \<and>
     unfinished_tasks (crawler_state c) =
       length (todo (crawler_state c)) + length (filter busy (workers c)) \<and>
     set (todo (crawler_state c)) \<union> \<Union> (held ` set (workers c)) \<subseteq> seen (crawler_state c) \<and>
     (case run_state c of
        Run_Start \<Rightarrow> workers c = []
      | Run_Join \<Rightarrow>
          length (workers c) = nat (num_workers (crawler_state c)) \<and>
          list_all (\<lambda>w. w = W_Get \<or> busy w) (workers c)
      | Run_Returned \<Rightarrow>
          length (workers c) = nat (num_workers (crawler_state c)) \<and>
          unfinished_tasks (crawler_state c) = 0 \<and>
          list_all (\<lambda>w. w = W_Get \<or> w = W_Returned) (workers c))"

text \<open>
  What remains to be done, for termination: the position of \<^verbatim>\<open>run\<close>, the budget left,
  the length of the queue, and how far each worker is from its next \<^verbatim>\<open>todo.get()\<close>.
\<close>

definition run_rank :: "system \<Rightarrow> nat" where
  "run_rank c = (case run_state c of Run_Start \<Rightarrow> 2 | Run_Join \<Rightarrow> 1 | Run_Returned \<Rightarrow> 0)"

definition budget_left :: "system \<Rightarrow> nat" where
  "budget_left c = nat (limit (crawler_state c) - total (crawler_state c))"

definition queue_length :: "system \<Rightarrow> nat" where
  "queue_length c = length (todo (crawler_state c))"

definition worker_rank :: "worker \<Rightarrow> nat" where
  "worker_rank w =
     (case w of W_Sleep u \<Rightarrow> 3 | W_Fetch u \<Rightarrow> 2 | W_Get \<Rightarrow> 1 | W_Returned \<Rightarrow> 0 | W_Raised e \<Rightarrow> 0)"

definition workers_rank :: "system \<Rightarrow> nat" where
  "workers_rank c = sum_list (map worker_rank (workers c))"

subsection \<open>The steps as a function of the scheduler's choice\<close>

text \<open>
  The same steps, computed: the task the event loop resumes, with the order in which
  Python iterates the set \<^verbatim>\<open>new\<close> where the step runs \<^verbatim>\<open>on_found_links\<close>. \<open>fire\<close> returns
  the addresses enqueued and the next state, or \<open>None\<close> when the task cannot be resumed
  that way.
\<close>

datatype action =
  Seed "string list" | Join | Get nat | Sleep nat | Respond nat "string list" | Cancel nat

definition fire :: "collaborators \<Rightarrow> action \<Rightarrow> system \<Rightarrow> (string list \<times> system) option" where
  "fire E a c =
     (let s = crawler_state c in
      case a of
        Seed order \<Rightarrow>
          if run_state c = Run_Start \<and> is_iteration (start_urls s - seen s) order
          then (let s' = snd (on_found_links s (start_urls s) order)
                in Some (enqueued s s',
                     \<lparr>crawler_state = s', run_state = Run_Join,
                      workers = replicate (nat (num_workers s')) W_Get\<rparr>))
          else None
      | Join \<Rightarrow>
          if run_state c = Run_Join \<and> unfinished_tasks s = 0
          then Some ([], c\<lparr>run_state := Run_Returned\<rparr>)
          else None
      | Get i \<Rightarrow>
          if run_state c = Run_Join \<and> i < length (workers c) \<and> workers c ! i = W_Get
          then (case todo s of
                  [] \<Rightarrow> None
                | url # rest \<Rightarrow>
                    Some ([], c\<lparr>crawler_state := s\<lparr>todo := rest\<rparr>,
                                 workers := (workers c)[i := W_Sleep url]\<rparr>))
          else None
      | Sleep i \<Rightarrow>
          if run_state c = Run_Join \<and> i < length (workers c)
          then (case workers c ! i of
                  W_Sleep url \<Rightarrow> Some ([], c\<lparr>workers := (workers c)[i := W_Fetch url]\<rparr>)
                | _ \<Rightarrow> None)
          else None
      | Respond i order \<Rightarrow>
          if run_state c = Run_Join \<and> i < length (workers c)
          then (case workers c ! i of
                  W_Fetch url \<Rightarrow>
                    if is_iteration (new_links E s url) order
                    then (let (s', exc) = process_one E s url order
                          in Some (enqueued s s',
                               c\<lparr>crawler_state := s',
                                 workers := (workers c)
                                   [i := (case exc of None \<Rightarrow> W_Get | Some e \<Rightarrow> W_Raised e)]\<rparr>))
                    else None
                | _ \<Rightarrow> None)
          else None
      | Cancel i \<Rightarrow>
          if run_state c = Run_Returned \<and> i < length (workers c)
          then (if workers c ! i = W_Get
                then Some ([], c\<lparr>workers := (workers c)[i := W_Returned]\<rparr>)
                else if busy (workers c ! i)
                then Some ([],
                       (case task_done s of
                          Inl e \<Rightarrow> c\<lparr>workers := (workers c)[i := W_Raised e]\<rparr>
                        | Inr s' \<Rightarrow>
                            c\<lparr>crawler_state := s', workers := (workers c)[i := W_Returned]\<rparr>))
                else None)
          else None)"

section \<open>Properties\<close>

subsection \<open>The scope filter\<close>

lemma filter_url_cases:
  assumes "urljoin L base url = Inr joined"
    and "urldefrag L joined = Inr (u, frag)"
    and "urlparse L u = Inr p"
  shows "filter_url L self base url =
           (if (\<exists>S. allowed_schemes self = Some S \<and> scheme p \<notin> S) \<or>
               (\<exists>D. allowed_domains self = Some D \<and> netloc p \<notin> D) \<or>
               (\<exists>T. allowed_filetypes self = Some T \<and> suffix (path p) \<notin> T)
            then Inr None else Inr (Some u))"
  using assms by (auto simp: filter_url_def Let_def split: option.splits)


lemma filter_url_SomeD:
  assumes "filter_url L self base url = Inr (Some u)"
  shows "\<exists>joined frag p.
           urljoin L base url = Inr joined \<and> urldefrag L joined = Inr (u, frag) \<and>
           urlparse L u = Inr p \<and>
           \<not> ((\<exists>S. allowed_schemes self = Some S \<and> scheme p \<notin> S) \<or>
              (\<exists>D. allowed_domains self = Some D \<and> netloc p \<notin> D) \<or>
              (\<exists>T. allowed_filetypes self = Some T \<and> suffix (path p) \<notin> T))"
  using assms
  by (auto simp: filter_url_def Let_def split: sum.splits prod.splits option.splits if_splits)



text \<open>
  Claim C10 as stated fails. With no allow-list, the relative base \<^verbatim>\<open>a/b\<close> and the
  candidate \<^verbatim>\<open>c\<close> the filter returns \<^verbatim>\<open>a/c\<close>, and on \<^verbatim>\<open>a/c\<close> it returns \<^verbatim>\<open>a/a/c\<close>:
  \<^verbatim>\<open>urljoin\<close> resolves a relative address against the base again. With the absolute
  base \<^verbatim>\<open>http://h/a?\<close> the empty candidate gives the base as it is, and the base given as
  candidate comes back without its question mark.
\<close>

theorem filter_url_refilter_counterexample:
  "filter_url py_urllib \<lparr>allowed_domains = None, allowed_schemes = None, allowed_filetypes = None\<rparr>
     ''a/b'' ''c'' = Inr (Some ''a/c'') \<and>
   filter_url py_urllib \<lparr>allowed_domains = None, allowed_schemes = None, allowed_filetypes = None\<rparr>
     ''a/b'' ''a/c'' = Inr (Some ''a/a/c'') \<and>
   filter_url py_urllib main_filterer ''http://localhost/a?'' [] = Inr (Some ''http://localhost/a?'') \<and>
   filter_url py_urllib main_filterer ''http://localhost/a?'' ''http://localhost/a?'' =
     Inr (Some ''http://localhost/a'')"
  by code_simp

text \<open>
  Claim C10, amended. The verdict of the allow-lists depends on the resolved address
  only. If the filter accepts a candidate as \<open>u\<close>, then the filter returns \<open>u\<close> for \<open>u\<close>
  exactly when the library, resolving \<open>u\<close> against the same base and stripping the
  fragment, arrives at \<open>u\<close> again.
\<close>

theorem filter_url_refilter:
  assumes "filter_url L self base url = Inr (Some u)"
  shows "filter_url L self base u = Inr (Some u) \<longleftrightarrow>
         (\<exists>joined frag. urljoin L base u = Inr joined \<and> urldefrag L joined = Inr (u, frag))"
proof
  assume "filter_url L self base u = Inr (Some u)"
  from filter_url_SomeD [OF this]
  show "\<exists>joined frag. urljoin L base u = Inr joined \<and> urldefrag L joined = Inr (u, frag)"
    by blast
next
  assume "\<exists>joined frag. urljoin L base u = Inr joined \<and> urldefrag L joined = Inr (u, frag)"
  then obtain joined frag where
    j: "urljoin L base u = Inr joined" and d: "urldefrag L joined = Inr (u, frag)"
    by blast
  from filter_url_SomeD [OF assms] obtain p where
    p: "urlparse L u = Inr p" and
    ok: "\<not> ((\<exists>S. allowed_schemes self = Some S \<and> scheme p \<notin> S) \<or>
            (\<exists>D. allowed_domains self = Some D \<and> netloc p \<notin> D) \<or>
            (\<exists>T. allowed_filetypes self = Some T \<and> suffix (path p) \<notin> T))"
    by blast
  show "filter_url L self base u = Inr (Some u)"
    unfolding filter_url_cases [OF j d p, of self] using ok by simp
qed

theorem filter_url_refilter_witness:
  "filter_url py_urllib main_filterer ''http://localhost/a/b.html'' ''http://localhost/c'' =
     Inr (Some ''http://localhost/c'')"
proof -
  have f: "filter_url py_urllib main_filterer ''http://localhost/a/b.html'' ''../c#top'' =
             Inr (Some ''http://localhost/c'')"
    by code_simp
  have j: "urljoin py_urllib ''http://localhost/a/b.html'' ''http://localhost/c'' = Inr ''http://localhost/c''"
    by code_simp
  have d: "urldefrag py_urllib ''http://localhost/c'' = Inr (''http://localhost/c'', [])"
    by code_simp
  from filter_url_refilter [OF f] j d show ?thesis
    by blast
qed

subsection \<open>Admission control: \<^verbatim>\<open>put_todo\<close> and \<^verbatim>\<open>on_found_links\<close>\<close>

lemma foldl_put_todo_fixed [simp]:
  "seen (foldl put_todo s xs) = seen s"
  "done_set (foldl put_todo s xs) = done_set s"
  "limit (foldl put_todo s xs) = limit s"
  "num_workers (foldl put_todo s xs) = num_workers s"
  "start_urls (foldl put_todo s xs) = start_urls s"
  by (induction xs arbitrary: s; simp add: put_todo_def)+

lemma foldl_put_todo_todo:
  "todo (foldl put_todo s xs) = todo s @ take (nat (limit s - total s)) xs"
proof (induction xs arbitrary: s)
  case Nil
  then show ?case by simp
next
  case (Cons x xs)
  show ?case
  proof (cases "total s \<ge> limit s")
    case True
    then show ?thesis using Cons [of s] by (simp add: put_todo_def)
  next
    case False
    then have "nat (limit s - total s) = Suc (nat (limit s - (total s + 1)))" by simp
    then show ?thesis using False Cons [of "put_todo s x"] by (simp add: put_todo_def)
  qed
qed

lemma foldl_put_todo_total:
  "total (foldl put_todo s xs) = total s + int (length (take (nat (limit s - total s)) xs))"
proof (induction xs arbitrary: s)
  case Nil
  then show ?case by simp
next
  case (Cons x xs)
  show ?case
  proof (cases "total s \<ge> limit s")
    case True
    then show ?thesis using Cons [of s] by (simp add: put_todo_def)
  next
    case False
    then have "nat (limit s - total s) = Suc (nat (limit s - (total s + 1)))" by simp
    then show ?thesis using False Cons [of "put_todo s x"] by (simp add: put_todo_def)
  qed
qed

lemma foldl_put_todo_unfinished:
  "unfinished_tasks (foldl put_todo s xs) =
     unfinished_tasks s + length (take (nat (limit s - total s)) xs)"
proof (induction xs arbitrary: s)
  case Nil
  then show ?case by simp
next
  case (Cons x xs)
  show ?case
  proof (cases "total s \<ge> limit s")
    case True
    then show ?thesis using Cons [of s] by (simp add: put_todo_def)
  next
    case False
    then have "nat (limit s - total s) = Suc (nat (limit s - (total s + 1)))" by simp
    then show ?thesis using False Cons [of "put_todo s x"] by (simp add: put_todo_def)
  qed
qed


lemma ofl_fields:
  "seen (snd (on_found_links s urls order)) = seen s \<union> urls"
  "todo (snd (on_found_links s urls order)) = todo s @ take (nat (limit s - total s)) order"
  "total (snd (on_found_links s urls order)) = total s + int (length (take (nat (limit s - total s)) order))"
  "unfinished_tasks (snd (on_found_links s urls order)) = unfinished_tasks s + length (take (nat (limit s - total s)) order)"
  "done_set (snd (on_found_links s urls order)) = done_set s"
  "limit (snd (on_found_links s urls order)) = limit s"
  "num_workers (snd (on_found_links s urls order)) = num_workers s"
  "start_urls (snd (on_found_links s urls order)) = start_urls s"
  by (auto simp: on_found_links_def Let_def foldl_put_todo_todo foldl_put_todo_total foldl_put_todo_unfinished)


lemma enqueued_on_found_links:
  "enqueued s (snd (on_found_links s urls order)) = take (nat (limit s - total s)) order"
  by (simp add: enqueued_def ofl_fields)

lemma is_iteration_empty [simp]: "is_iteration {} order \<longleftrightarrow> order = []"
  by (auto simp: is_iteration_def)

lemma crawl_Inl: "crawl E s url order = Inl e \<Longrightarrow> new_links E s url = {}"
  by (auto simp: crawl_def new_links_def Let_def split: sum.splits)

lemma crawl_Inr:
  assumes "crawl E s url order = Inr s1"
  shows "\<exists>r found. client_get E url = Inr r \<and>
           parse_links E (response_url r) (response_text r) = Inr found \<and>
           new_links E s url = found - seen s \<and>
           s1 = (snd (on_found_links s found order))
                  \<lparr>done_set := insert url (done_set (snd (on_found_links s found order)))\<rparr>"
  using assms by (auto simp: crawl_def new_links_def Let_def split: sum.splits)

lemma process_one_fail:
  assumes "crawl E s url order = Inl e"
  shows "process_one E s url order =
           (if unfinished_tasks s = 0 then (s, Some (Exception ''ValueError''))
            else (s\<lparr>unfinished_tasks := unfinished_tasks s - 1\<rparr>, None))"
  using assms by (cases e) (simp add: process_one_def task_done_def)

lemma process_one_ok:
  assumes "crawl E s url order = Inr s1"
  shows "process_one E s url order =
           (if unfinished_tasks s1 = 0 then (s1, Some (Exception ''ValueError''))
            else (s1\<lparr>unfinished_tasks := unfinished_tasks s1 - 1\<rparr>, None))"
  using assms by (simp add: process_one_def task_done_def)

lemma process_one_summary:
  assumes "process_one E s url order = (s', exc)"
    and "is_iteration (new_links E s url) order"
  shows "limit s' = limit s \<and> num_workers s' = num_workers s \<and> start_urls s' = start_urls s \<and>
         seen s' = seen s \<union> set order \<and>
         todo s' = todo s @ take (nat (limit s - total s)) order \<and>
         total s' = total s + int (length (take (nat (limit s - total s)) order)) \<and>
         (exc \<noteq> None \<longleftrightarrow> unfinished_tasks s + length (take (nat (limit s - total s)) order) = 0) \<and>
         unfinished_tasks s' + (if exc = None then 1 else 0) =
           unfinished_tasks s + length (take (nat (limit s - total s)) order) \<and>
         done_set s' \<subseteq> insert url (done_set s)"
proof (cases "crawl E s url order")
  case (Inl e)
  from crawl_Inl [OF Inl] assms(2) have o: "order = []" by simp
  show ?thesis
  proof (cases "unfinished_tasks s = 0")
    case True
    with process_one_fail [OF Inl] assms(1) have "s' = s" "exc = Some (Exception ''ValueError'')"
      by simp_all
    with o True show ?thesis by (simp add: subset_insertI)
  next
    case False
    with process_one_fail [OF Inl] assms(1)
    have "s' = s\<lparr>unfinished_tasks := unfinished_tasks s - 1\<rparr>" "exc = None"
      by simp_all
    with o False show ?thesis by (simp add: subset_insertI)
  qed
next
  case (Inr s1)
  from crawl_Inr [OF Inr] obtain found where
    n: "new_links E s url = found - seen s" and
    s1: "s1 = (snd (on_found_links s found order))
                \<lparr>done_set := insert url (done_set (snd (on_found_links s found order)))\<rparr>"
    by blast
  from n assms(2) have o: "set order = found - seen s" by (simp add: is_iteration_def)
  then have sn: "seen s \<union> found = seen s \<union> set order" by blast
  have f: "limit s1 = limit s" "num_workers s1 = num_workers s" "start_urls s1 = start_urls s"
    "seen s1 = seen s \<union> set order"
    "todo s1 = todo s @ take (nat (limit s - total s)) order"
    "total s1 = total s + int (length (take (nat (limit s - total s)) order))"
    "unfinished_tasks s1 = unfinished_tasks s + length (take (nat (limit s - total s)) order)"
    "done_set s1 = insert url (done_set s)"
    unfolding s1 by (simp_all add: ofl_fields sn)
  show ?thesis
  proof (cases "unfinished_tasks s1 = 0")
    case True
    with process_one_ok [OF Inr] assms(1) have "s' = s1" "exc = Some (Exception ''ValueError'')"
      by simp_all
    with f True show ?thesis by (simp add: subset_insertI)
  next
    case False
    with process_one_ok [OF Inr] assms(1)
    have "s' = s1\<lparr>unfinished_tasks := unfinished_tasks s1 - 1\<rparr>" "exc = None"
      by simp_all
    with f False show ?thesis by (simp add: subset_insertI)
  qed
qed

subsection \<open>Runs of the event loop\<close>

lemma take_budget:
  "total s + int (length (take (nat (limit s - total s)) order)) \<le> limit s \<or>
   take (nat (limit s - total s)) order = []"
  by (cases "limit s \<le> total s") auto

lemma seed_summary:
  assumes "is_iteration (start_urls s - seen s) order"
    and "s' = snd (on_found_links s (start_urls s) order)"
  shows "limit s' = limit s \<and> num_workers s' = num_workers s \<and> start_urls s' = start_urls s \<and>
         seen s' = seen s \<union> set order \<and>
         todo s' = todo s @ take (nat (limit s - total s)) order \<and>
         total s' = total s + int (length (take (nat (limit s - total s)) order)) \<and>
         unfinished_tasks s' = unfinished_tasks s + length (take (nat (limit s - total s)) order)"
proof -
  from assms(1) have "set order = start_urls s - seen s" by (simp add: is_iteration_def)
  then have "seen s \<union> start_urls s = seen s \<union> set order" by blast
  then show ?thesis unfolding assms(2) by (simp add: ofl_fields)
qed

lemma step_ok_admit:
  assumes "distinct order" and "set order \<inter> seen s = {}"
    and "limit s' = limit s" and "num_workers s' = num_workers s"
    and "start_urls s' = start_urls s"
    and "seen s' = seen s \<union> set order"
    and "todo s' = todo s @ take (nat (limit s - total s)) order"
    and "total s' = total s + int (length (take (nat (limit s - total s)) order))"
  shows "step_ok s (enqueued s s') s'"
proof -
  have e: "enqueued s s' = take (nat (limit s - total s)) order"
    by (simp add: enqueued_def assms(7))
  have "set (take (nat (limit s - total s)) order) \<subseteq> set order"
    by (rule set_take_subset)
  with assms(2) have "set (take (nat (limit s - total s)) order) \<subseteq> (seen s \<union> set order) - seen s"
    by blast
  moreover have "distinct (take (nat (limit s - total s)) order)"
    using assms(1) by (rule distinct_take)
  ultimately show ?thesis
    unfolding step_ok_def e using assms(3-6,8) take_budget [of s order] by auto
qed

lemma step_ok_same:
  assumes "limit s' = limit s" and "num_workers s' = num_workers s"
    and "start_urls s' = start_urls s" and "seen s' = seen s" and "total s' = total s"
  shows "step_ok s [] s'"
  using assms by (simp add: step_ok_def)

lemma step_summary:
  assumes "step E c es c'"
  shows "step_ok (crawler_state c) es (crawler_state c')"
  using assms
proof cases
  case (seed order s')
  from seed(4) have d: "distinct order" "set order \<inter> seen (crawler_state c) = {}"
    by (auto simp: is_iteration_def)
  from seed_summary [OF seed(4) seed(5)] d show ?thesis
    unfolding seed(1) seed(2) by (simp add: step_ok_admit)
next
  case join
  then show ?thesis by (simp add: step_ok_same)
next
  case (get i url rest)
  then show ?thesis by (simp add: step_ok_same)
next
  case (sleep i url)
  then show ?thesis by (simp add: step_ok_same)
next
  case (respond i url order s' exc)
  from respond(6) have d: "distinct order" by (simp add: is_iteration_def)
  have "new_links E (crawler_state c) url \<inter> seen (crawler_state c) = {}"
    by (auto simp: new_links_def split: sum.splits)
  with respond(6) have d2: "set order \<inter> seen (crawler_state c) = {}"
    by (simp add: is_iteration_def)
  from process_one_summary [OF respond(7) respond(6)] d d2 show ?thesis
    unfolding respond(1) respond(2) by (simp add: step_ok_admit)
next
  case (cancel_get i)
  then show ?thesis by (simp add: step_ok_same)
next
  case (cancel_crawl i url)
  then show ?thesis
    by (cases "unfinished_tasks (crawler_state c) = 0") (simp_all add: step_ok_same task_done_def)
qed

lemma step_ok_trans:
  assumes "step_ok s es s'" and "step_ok s' es' s''"
  shows "step_ok s (es @ es') s''"
proof -
  from assms have "set es \<inter> set es' = {}" by (auto simp: step_ok_def)
  moreover from assms have "es @ es' = [] \<or> total s'' \<le> limit s"
    by (auto simp: step_ok_def)
  moreover from assms have "set (es @ es') \<subseteq> seen s'' - seen s"
    by (auto simp: step_ok_def)
  ultimately show ?thesis using assms by (simp add: step_ok_def) blast
qed

lemma execution_summary:
  assumes "execution E c es c'"
  shows "step_ok (crawler_state c) es (crawler_state c')"
  using assms
proof induction
  case exec_start
  show ?case by (simp add: step_ok_def)
next
  case (exec_step c es c' es' c'')
  from step_ok_trans [OF exec_step.IH step_summary [OF exec_step.hyps(2)]] show ?case .
qed

text \<open>The label of a step is what the step appends to the queue; only \<open>get\<close> removes from it.\<close>

lemma step_queue:
  assumes "step E c es c'"
  shows "todo (crawler_state c') = todo (crawler_state c) @ es \<or>
         (es = [] \<and> todo (crawler_state c') = tl (todo (crawler_state c)))"
  using assms
proof cases
  case (seed order s')
  from seed_summary [OF seed(4) seed(5)] seed(1,2) show ?thesis
    by (simp add: enqueued_def)
next
  case (respond i url order s' exc)
  from process_one_summary [OF respond(7) respond(6)] respond(1,2) show ?thesis
    by (simp add: enqueued_def)
next
  case (cancel_crawl i url)
  then show ?thesis
    by (cases "unfinished_tasks (crawler_state c) = 0") (simp_all add: task_done_def)
qed simp_all

subsection \<open>A run on the small web\<close>

lemma execution_trans:
  assumes "execution E c es c'" and "execution E c' es' c''"
  shows "execution E c (es @ es') c''"
  using assms(2) assms(1)
proof induction
  case exec_start
  then show ?case by simp
next
  case (exec_step c0 es1 c1 es2 c2)
  from execution.exec_step [OF exec_step.IH [OF exec_step.prems] exec_step.hyps(2)]
  show ?case by simp
qed

lemma execution_single: "step E c es c' \<Longrightarrow> execution E c es c'"
  using exec_step [OF exec_start, of E c es c'] by simp

lemma example_init: "Crawler_init [''A''] 1 2 = Inr (crawler_state (example_system [] 0 {} {} 0 Run_Start []))"
  and example_initial: "initial (crawler_state (example_system [] 0 {} {} 0 Run_Start [])) = example_system [] 0 {} {} 0 Run_Start []"
  by (simp_all add: Crawler_init_def example_system_def initial_def)

lemma example_seed:
  "step example_web (example_system [] 0 {} {} 0 Run_Start []) [''A'']
     (example_system [''A''] 1 {''A''} {} 1 Run_Join [W_Get])"
  using step.seed [where E = example_web and order = "[''A'']"
      and c = "example_system [] 0 {} {} 0 Run_Start []"]
  by (simp add: example_system_def is_iteration_def on_found_links_def put_todo_def enqueued_def)

lemma example_get_A:
  "step example_web (example_system [''A''] 1 {''A''} {} 1 Run_Join [W_Get]) []
     (example_system [] 1 {''A''} {} 1 Run_Join [W_Sleep ''A''])"
  using step.get [where E = example_web and i = 0 and url = "''A''" and rest = "[]"
      and c = "example_system [''A''] 1 {''A''} {} 1 Run_Join [W_Get]"]
  by (simp add: example_system_def)

lemma example_sleep_A:
  "step example_web (example_system [] 1 {''A''} {} 1 Run_Join [W_Sleep ''A'']) []
     (example_system [] 1 {''A''} {} 1 Run_Join [W_Fetch ''A''])"
  using step.sleep [where E = example_web and i = 0 and url = "''A''"
      and c = "example_system [] 1 {''A''} {} 1 Run_Join [W_Sleep ''A'']"]
  by (simp add: example_system_def)

lemma example_respond_A:
  "step example_web (example_system [] 1 {''A''} {} 1 Run_Join [W_Fetch ''A'']) [''B'']
     (example_system [''B''] 1 {''A'', ''B'', ''X''} {''A''} 2 Run_Join [W_Get])"
proof -
  have p: "process_one example_web
             (crawler_state (example_system [] 1 {''A''} {} 1 Run_Join [W_Fetch ''A'']))
             ''A'' [''B'', ''X''] =
           (crawler_state (example_system [''B''] 1 {''A'', ''B'', ''X''} {''A''} 2 Run_Join [W_Get]), None)"
    by code_simp
  have i: "is_iteration
             (new_links example_web
                (crawler_state (example_system [] 1 {''A''} {} 1 Run_Join [W_Fetch ''A''])) ''A'')
             [''B'', ''X'']"
    by code_simp
  from step.respond [where E = example_web and i = 0 and url = "''A''"
      and c = "example_system [] 1 {''A''} {} 1 Run_Join [W_Fetch ''A'']", OF _ _ _ i p]
  show ?thesis
    by (simp add: example_system_def enqueued_def)
qed

lemma example_get_B:
  "step example_web (example_system [''B''] 1 {''A'', ''B'', ''X''} {''A''} 2 Run_Join [W_Get]) []
     (example_system [] 1 {''A'', ''B'', ''X''} {''A''} 2 Run_Join [W_Sleep ''B''])"
  using step.get [where E = example_web and i = 0 and url = "''B''" and rest = "[]"
      and c = "example_system [''B''] 1 {''A'', ''B'', ''X''} {''A''} 2 Run_Join [W_Get]"]
  by (simp add: example_system_def)

lemma example_sleep_B:
  "step example_web (example_system [] 1 {''A'', ''B'', ''X''} {''A''} 2 Run_Join [W_Sleep ''B'']) []
     (example_system [] 1 {''A'', ''B'', ''X''} {''A''} 2 Run_Join [W_Fetch ''B''])"
  using step.sleep [where E = example_web and i = 0 and url = "''B''"
      and c = "example_system [] 1 {''A'', ''B'', ''X''} {''A''} 2 Run_Join [W_Sleep ''B'']"]
  by (simp add: example_system_def)

lemma example_respond_B:
  "step example_web (example_system [] 1 {''A'', ''B'', ''X''} {''A''} 2 Run_Join [W_Fetch ''B'']) []
     (example_system [] 0 {''A'', ''B'', ''X''} {''B'', ''A''} 2 Run_Join [W_Get])"
proof -
  have p: "process_one example_web
             (crawler_state (example_system [] 1 {''A'', ''B'', ''X''} {''A''} 2 Run_Join [W_Fetch ''B'']))
             ''B'' [] =
           (crawler_state (example_system [] 0 {''A'', ''B'', ''X''} {''B'', ''A''} 2 Run_Join [W_Get]), None)"
    by code_simp
  have i: "is_iteration
             (new_links example_web
                (crawler_state (example_system [] 1 {''A'', ''B'', ''X''} {''A''} 2 Run_Join [W_Fetch ''B''])) ''B'')
             []"
    by code_simp
  from step.respond [where E = example_web and i = 0 and url = "''B''"
      and c = "example_system [] 1 {''A'', ''B'', ''X''} {''A''} 2 Run_Join [W_Fetch ''B'']", OF _ _ _ i p]
  show ?thesis
    by (simp add: example_system_def enqueued_def)
qed

lemma example_join:
  "step example_web (example_system [] 0 {''A'', ''B'', ''X''} {''B'', ''A''} 2 Run_Join [W_Get]) []
     (example_system [] 0 {''A'', ''B'', ''X''} {''B'', ''A''} 2 Run_Returned [W_Get])"
  using step.join [where E = example_web
      and c = "example_system [] 0 {''A'', ''B'', ''X''} {''B'', ''A''} 2 Run_Join [W_Get]"]
  by (simp add: example_system_def)

lemma example_cancel:
  "step example_web (example_system [] 0 {''A'', ''B'', ''X''} {''B'', ''A''} 2 Run_Returned [W_Get]) []
     (example_system [] 0 {''A'', ''B'', ''X''} {''B'', ''A''} 2 Run_Returned [W_Returned])"
  using step.cancel_get [where E = example_web and i = 0
      and c = "example_system [] 0 {''A'', ''B'', ''X''} {''B'', ''A''} 2 Run_Returned [W_Get]"]
  by (simp add: example_system_def)

text \<open>The run up to the moment the budget is used up, and the rest of it.\<close>

lemma example_run_to_limit:
  "execution example_web (example_system [] 0 {} {} 0 Run_Start []) [''A'', ''B'']
     (example_system [''B''] 1 {''A'', ''B'', ''X''} {''A''} 2 Run_Join [W_Get])"
  using exec_step [OF exec_step [OF exec_step [OF execution_single [OF example_seed]
    example_get_A] example_sleep_A] example_respond_A]
  by simp

lemma example_run_from_limit:
  "execution example_web (example_system [''B''] 1 {''A'', ''B'', ''X''} {''A''} 2 Run_Join [W_Get]) []
     (example_system [] 0 {''A'', ''B'', ''X''} {''B'', ''A''} 2 Run_Returned [W_Returned])"
  using exec_step [OF exec_step [OF exec_step [OF exec_step [OF execution_single [OF example_get_B]
    example_sleep_B] example_respond_B] example_join] example_cancel]
  by simp

lemma example_run:
  "execution example_web (example_system [] 0 {} {} 0 Run_Start []) [''A'', ''B'']
     (example_system [] 0 {''A'', ''B'', ''X''} {''B'', ''A''} 2 Run_Returned [W_Returned])"
  using execution_trans [OF example_run_to_limit example_run_from_limit] by simp

subsection \<open>The budget and the seen-set\<close>

text \<open>
  Claim C4. One address: below the limit \<^verbatim>\<open>put_todo\<close> adds one to \<open>total\<close> and appends
  the address to the queue; at the limit it changes nothing. One batch, iterated in
  any order: every novel address enters the seen-set, in which it was not before;
  the first \<open>limit - total\<close> of them are enqueued and counted; the remaining ones are dropped, which happens only
  with the limit reached; a dropped address is in the seen-set, is not among the
  addresses enqueued, and no later step of any run enqueues it, so that no worker
  ever takes it.
\<close>

theorem budget_cutoff:
  assumes "is_iteration (urls - seen s) order"
  shows "(total s < limit s \<longrightarrow>
            put_todo s url = s\<lparr>total := total s + 1, todo := todo s @ [url],
                               unfinished_tasks := unfinished_tasks s + 1\<rparr>) \<and>
         (limit s \<le> total s \<longrightarrow> put_todo s url = s) \<and>
         (let s' = snd (on_found_links s urls order); k = nat (limit s - total s)
          in seen s' = seen s \<union> urls \<and>
             set order \<inter> seen s = {} \<and>
             enqueued s s' = take k order \<and>
             total s' = total s + int (length (take k order)) \<and>
             (drop k order \<noteq> [] \<longrightarrow> limit s' \<le> total s') \<and>
             set (drop k order) \<subseteq> seen s' \<and>
             set (drop k order) \<inter> set (enqueued s s') = {} \<and>
             (\<forall>E c es c'. crawler_state c = s' \<longrightarrow> execution E c es c' \<longrightarrow>
                           set (drop k order) \<inter> set es = {}))"
proof -
  define s' where "s' = snd (on_found_links s urls order)"
  define k where "k = nat (limit s - total s)"
  from assms have o: "set order = urls - seen s" and d: "distinct order"
    by (simp_all add: is_iteration_def)
  have p1: "total s < limit s \<longrightarrow>
            put_todo s url = s\<lparr>total := total s + 1, todo := todo s @ [url],
                               unfinished_tasks := unfinished_tasks s + 1\<rparr>"
    by (simp add: put_todo_def)
  have p2: "limit s \<le> total s \<longrightarrow> put_todo s url = s"
    by (simp add: put_todo_def)
  have a: "seen s' = seen s \<union> urls"
    by (simp add: s'_def ofl_fields)
  from o have n: "set order \<inter> seen s = {}" by blast
  have b: "enqueued s s' = take k order"
    by (simp add: s'_def k_def enqueued_on_found_links)
  have c: "total s' = total s + int (length (take k order))"
    by (simp add: s'_def k_def ofl_fields)
  have e: "drop k order \<noteq> [] \<longrightarrow> limit s' \<le> total s'"
  proof
    assume "drop k order \<noteq> []"
    then have "k < length order" by simp
    then have "length (take k order) = k" by simp
    with c have "total s' = total s + int k" by simp
    then show "limit s' \<le> total s'" by (simp add: s'_def ofl_fields k_def)
  qed
  have "set (drop k order) \<subseteq> set order" by (rule set_drop_subset)
  with o a have f: "set (drop k order) \<subseteq> seen s'" by blast
  from d have "distinct (take k order @ drop k order)" by simp
  then have "set (take k order) \<inter> set (drop k order) = {}"
    unfolding distinct_append by blast
  with b have g: "set (drop k order) \<inter> set (enqueued s s') = {}" by auto
  have h: "set (drop k order) \<inter> set es = {}"
    if "crawler_state c = s'" and "execution E c es c'" for E c es c'
    using execution_summary [OF that(2)] f that(1) by (auto simp: step_ok_def)
  from p1 p2 a n b c e f g h show ?thesis
    unfolding Let_def s'_def [symmetric] k_def [symmetric] by blast
qed

theorem budget_cutoff_witness:
  "enqueued
     \<lparr>start_urls = {''A''}, todo = [], unfinished_tasks = 1, seen = {''A''}, done_set = {},
      num_workers = 1, limit = 3, total = 1\<rparr>
     (snd (on_found_links
        \<lparr>start_urls = {''A''}, todo = [], unfinished_tasks = 1, seen = {''A''}, done_set = {},
         num_workers = 1, limit = 3, total = 1\<rparr>
        {''B'', ''C'', ''D'', ''E''} [''B'', ''C'', ''D'', ''E''])) = [''B'', ''C''] \<and>
   total (snd (on_found_links
        \<lparr>start_urls = {''A''}, todo = [], unfinished_tasks = 1, seen = {''A''}, done_set = {},
         num_workers = 1, limit = 3, total = 1\<rparr>
        {''B'', ''C'', ''D'', ''E''} [''B'', ''C'', ''D'', ''E''])) = 3 \<and>
   {''D'', ''E''} \<subseteq> seen (snd (on_found_links
        \<lparr>start_urls = {''A''}, todo = [], unfinished_tasks = 1, seen = {''A''}, done_set = {},
         num_workers = 1, limit = 3, total = 1\<rparr>
        {''B'', ''C'', ''D'', ''E''} [''B'', ''C'', ''D'', ''E'']))"
proof -
  have i: "is_iteration
             ({''B'', ''C'', ''D'', ''E''} -
              seen \<lparr>start_urls = {''A''}, todo = [], unfinished_tasks = 1, seen = {''A''},
                    done_set = {}, num_workers = 1, limit = 3, total = 1\<rparr>)
             [''B'', ''C'', ''D'', ''E'']"
    by (auto simp: is_iteration_def)
  from budget_cutoff [OF i, of "''B''"] show ?thesis
    by (simp add: Let_def)
qed

text \<open>
  Claim C5 as stated fails: \<^verbatim>\<open>on_found_links\<close> returns \<^verbatim>\<open>None\<close>. Here the crawler has
  admitted \<^verbatim>\<open>A\<close> and is offered \<^verbatim>\<open>B\<close>: \<^verbatim>\<open>B\<close> is enqueued, and the value returned is
  \<^verbatim>\<open>None\<close>, not the set holding \<^verbatim>\<open>B\<close>.
\<close>

theorem on_found_links_result_counterexample:
  "enqueued
     \<lparr>start_urls = {''A''}, todo = [], unfinished_tasks = 1, seen = {''A''}, done_set = {},
      num_workers = 1, limit = 3, total = 1\<rparr>
     (snd (on_found_links
        \<lparr>start_urls = {''A''}, todo = [], unfinished_tasks = 1, seen = {''A''}, done_set = {},
         num_workers = 1, limit = 3, total = 1\<rparr> {''B''} [''B''])) = [''B''] \<and>
   fst (on_found_links
        \<lparr>start_urls = {''A''}, todo = [], unfinished_tasks = 1, seen = {''A''}, done_set = {},
         num_workers = 1, limit = 3, total = 1\<rparr> {''B''} [''B'']) = PyNone \<and>
   PyNone \<noteq> PySet {''B''}"
  by (simp add: on_found_links_def put_todo_def enqueued_def)

text \<open>
  Claim C5, amended. \<^verbatim>\<open>on_found_links\<close> returns \<^verbatim>\<open>None\<close> on every call. The subset of
  the proposed addresses that it enqueues is not returned; it is what the call appends
  to the queue: the first \<open>limit - total\<close> novel addresses in the order of iteration,
  all of them among the proposed addresses and none seen before.
\<close>

theorem on_found_links_result:
  assumes "is_iteration (urls - seen s) order"
  shows "fst (on_found_links s urls order) = PyNone \<and>
         todo (snd (on_found_links s urls order)) =
           todo s @ enqueued s (snd (on_found_links s urls order)) \<and>
         enqueued s (snd (on_found_links s urls order)) = take (nat (limit s - total s)) order \<and>
         set (enqueued s (snd (on_found_links s urls order))) \<subseteq> urls - seen s"
proof -
  have "set (take (nat (limit s - total s)) order) \<subseteq> set order"
    by (rule set_take_subset)
  with assms have "set (take (nat (limit s - total s)) order) \<subseteq> urls - seen s"
    by (simp add: is_iteration_def)
  moreover have "fst (on_found_links s urls order) = PyNone"
    by (simp add: on_found_links_def Let_def)
  ultimately show ?thesis
    by (simp add: enqueued_on_found_links ofl_fields)
qed

theorem on_found_links_result_witness:
  "fst (on_found_links
        \<lparr>start_urls = {''A''}, todo = [], unfinished_tasks = 1, seen = {''A''}, done_set = {},
         num_workers = 1, limit = 3, total = 1\<rparr>
        {''A'', ''B'', ''C'', ''D''} [''D'', ''C'', ''B'']) = PyNone \<and>
   todo (snd (on_found_links
        \<lparr>start_urls = {''A''}, todo = [], unfinished_tasks = 1, seen = {''A''}, done_set = {},
         num_workers = 1, limit = 3, total = 1\<rparr>
        {''A'', ''B'', ''C'', ''D''} [''D'', ''C'', ''B''])) = [''D'', ''C'']"
proof -
  have i: "is_iteration
             ({''A'', ''B'', ''C'', ''D''} -
              seen \<lparr>start_urls = {''A''}, todo = [], unfinished_tasks = 1, seen = {''A''},
                    done_set = {}, num_workers = 1, limit = 3, total = 1\<rparr>)
             [''D'', ''C'', ''B'']"
    by (auto simp: is_iteration_def)
  from on_found_links_result [OF i] show ?thesis
    by simp
qed

text \<open>
  Claim C1 as stated fails. The constructor accepts a negative limit, and then \<open>total\<close>,
  which starts at zero, exceeds the limit from the first moment of the run.
\<close>

theorem budget_respected_counterexample:
  "Crawler_init [''A''] 1 (- 1) =
     Inr \<lparr>start_urls = {''A''}, todo = [], unfinished_tasks = 0, seen = {}, done_set = {},
          num_workers = 1, limit = - 1, total = 0\<rparr> \<and>
   execution example_web
     (initial \<lparr>start_urls = {''A''}, todo = [], unfinished_tasks = 0, seen = {}, done_set = {},
               num_workers = 1, limit = - 1, total = 0\<rparr>)
     []
     (initial \<lparr>start_urls = {''A''}, todo = [], unfinished_tasks = 0, seen = {}, done_set = {},
               num_workers = 1, limit = - 1, total = 0\<rparr>) \<and>
   limit (crawler_state
     (initial \<lparr>start_urls = {''A''}, todo = [], unfinished_tasks = 0, seen = {}, done_set = {},
               num_workers = 1, limit = - 1, total = 0\<rparr>)) <
   total (crawler_state
     (initial \<lparr>start_urls = {''A''}, todo = [], unfinished_tasks = 0, seen = {}, done_set = {},
               num_workers = 1, limit = - 1, total = 0\<rparr>))"
  using exec_start [of example_web
      "initial \<lparr>start_urls = {''A''}, todo = [], unfinished_tasks = 0, seen = {}, done_set = {},
                num_workers = 1, limit = - 1, total = 0\<rparr>"]
  by (simp add: Crawler_init_def initial_def)

text \<open>
  Claim C1, amended. In every run, under every interleaving of the workers' steps, the
  limit stays as configured and \<open>total\<close> is never negative and never exceeds the larger
  of zero and the limit; so it never exceeds a limit that is not negative. Once \<open>total\<close>
  has reached the limit (or lies above a negative one), no step of any continuation of
  the run enqueues an address, whatever is discovered, and \<open>total\<close> stays as it is.
\<close>

theorem budget_respected:
  assumes "Crawler_init urls n lim = Inr s0"
    and "execution E (initial s0) es c"
  shows "limit (crawler_state c) = lim \<and>
         0 \<le> total (crawler_state c) \<and>
         total (crawler_state c) \<le> max 0 lim \<and>
         (0 \<le> lim \<longrightarrow> total (crawler_state c) \<le> limit (crawler_state c)) \<and>
         (\<forall>es' c'. execution E c es' c' \<longrightarrow> limit (crawler_state c) \<le> total (crawler_state c) \<longrightarrow>
                    es' = [] \<and> total (crawler_state c') = total (crawler_state c))"
proof -
  from assms(1) have s0: "limit s0 = lim" "total s0 = 0"
    by (auto simp: Crawler_init_def)
  from execution_summary [OF assms(2)] s0
  have l: "limit (crawler_state c) = lim"
    and t: "total (crawler_state c) = int (length es)"
    and b: "es = [] \<or> total (crawler_state c) \<le> lim"
    by (auto simp: step_ok_def initial_def)
  from t have p: "0 \<le> total (crawler_state c)" by simp
  from t b have m: "total (crawler_state c) \<le> max 0 lim" by auto
  from m l have q: "0 \<le> lim \<longrightarrow> total (crawler_state c) \<le> limit (crawler_state c)"
    by (cases "0 \<le> lim") simp_all
  have "es' = [] \<and> total (crawler_state c') = total (crawler_state c)"
    if e: "execution E c es' c'" and g: "limit (crawler_state c) \<le> total (crawler_state c)"
    for es' c'
  proof -
    from execution_summary [OF e]
    have t': "total (crawler_state c') = total (crawler_state c) + int (length es')"
      and b': "es' = [] \<or> total (crawler_state c') \<le> limit (crawler_state c)"
      unfolding step_ok_def by blast+
    have n: "es' = []"
    proof (rule ccontr)
      assume "es' \<noteq> []"
      then have "0 < int (length es')" by simp
      with b' t' g \<open>es' \<noteq> []\<close> show False by linarith
    qed
    with t' show ?thesis by simp
  qed
  with l p m q show ?thesis by blast
qed

theorem budget_respected_witness:
  "limit (crawler_state (example_system [''B''] 1 {''A'', ''B'', ''X''} {''A''} 2 Run_Join [W_Get])) = 2 \<and>
   total (crawler_state (example_system [''B''] 1 {''A'', ''B'', ''X''} {''A''} 2 Run_Join [W_Get])) \<le> 2 \<and>
   total (crawler_state
     (example_system [] 0 {''A'', ''B'', ''X''} {''B'', ''A''} 2 Run_Returned [W_Returned])) = 2"
proof -
  let ?c = "example_system [''B''] 1 {''A'', ''B'', ''X''} {''A''} 2 Run_Join [W_Get]"
  let ?d = "example_system [] 0 {''A'', ''B'', ''X''} {''B'', ''A''} 2 Run_Returned [W_Returned]"
  have e: "execution example_web
             (initial (crawler_state (example_system [] 0 {} {} 0 Run_Start []))) [''A'', ''B''] ?c"
    using example_run_to_limit example_initial by simp
  from budget_respected [OF example_init e]
  have l: "limit (crawler_state ?c) = 2"
    and t: "total (crawler_state ?c) \<le> max 0 2"
    and r: "\<forall>es' c'. execution example_web ?c es' c' \<longrightarrow>
              limit (crawler_state ?c) \<le> total (crawler_state ?c) \<longrightarrow>
              es' = [] \<and> total (crawler_state c') = total (crawler_state ?c)"
    by blast+
  have f: "limit (crawler_state ?c) \<le> total (crawler_state ?c)"
    by (simp add: example_system_def)
  from r example_run_from_limit f
  have "total (crawler_state ?d) = total (crawler_state ?c)" by blast
  moreover have "total (crawler_state ?c) = 2" by (simp add: example_system_def)
  ultimately show ?thesis using l t by simp
qed

text \<open>
  Claim C2. The addresses enqueued in a run, from its first step on and under every
  interleaving, are pairwise distinct: no address is admitted twice. None of them was
  in the seen-set where the run started, and all are in the seen-set afterwards:
  \<^verbatim>\<open>on_found_links\<close> tests the seen-set and adds to it in one step, before it enqueues.
\<close>

theorem admitted_at_most_once:
  assumes "execution E c es c'"
  shows "distinct es \<and> set es \<inter> seen (crawler_state c) = {} \<and> set es \<subseteq> seen (crawler_state c')"
  using execution_summary [OF assms] by (auto simp: step_ok_def)

theorem admitted_at_most_once_witness:
  "distinct [''A'', ''B''] \<and>
   set [''A'', ''B''] \<subseteq> seen (crawler_state
     (example_system [] 0 {''A'', ''B'', ''X''} {''B'', ''A''} 2 Run_Returned [W_Returned]))"
  using admitted_at_most_once [OF example_run] by simp

subsection \<open>Consistency of reachable states, progress and termination\<close>

lemma busy_simps [simp]:
  "busy (W_Sleep u)" "busy (W_Fetch u)" "\<not> busy W_Get" "\<not> busy W_Returned" "\<not> busy (W_Raised e)"
  by (simp_all add: busy_def)

lemma held_simps [simp]:
  "held (W_Sleep u) = {u}" "held (W_Fetch u) = {u}" "held W_Get = {}" "held W_Returned = {}"
  "held (W_Raised e) = {}"
  by (simp_all add: held_def)

lemma worker_rank_simps [simp]:
  "worker_rank (W_Sleep u) = 3" "worker_rank (W_Fetch u) = 2" "worker_rank W_Get = 1"
  "worker_rank W_Returned = 0" "worker_rank (W_Raised e) = 0"
  by (simp_all add: worker_rank_def)

lemma busy_count_update:
  "i < length ws \<Longrightarrow>
   length (filter busy (ws[i := w])) + (if busy (ws ! i) then 1 else 0) =
   length (filter busy ws) + (if busy w then 1 else 0)"
proof (induction ws arbitrary: i)
  case Nil
  then show ?case by simp
next
  case (Cons a ws)
  show ?case
  proof (cases i)
    case 0
    then show ?thesis by simp
  next
    case (Suc j)
    with Cons.prems have "j < length ws" by simp
    from Cons.IH [OF this] Suc show ?thesis by simp
  qed
qed

lemma rank_update:
  "i < length ws \<Longrightarrow>
   sum_list (map worker_rank (ws[i := w])) + worker_rank (ws ! i) =
   sum_list (map worker_rank ws) + worker_rank w"
proof (induction ws arbitrary: i)
  case Nil
  then show ?case by simp
next
  case (Cons a ws)
  show ?case
  proof (cases i)
    case 0
    then show ?thesis by simp
  next
    case (Suc j)
    with Cons.prems have "j < length ws" by simp
    from Cons.IH [OF this] Suc show ?thesis by simp
  qed
qed

lemma held_update:
  "\<Union> (held ` set (ws[i := w])) \<subseteq> held w \<union> \<Union> (held ` set ws)"
  using set_update_subset_insert [of ws i w] by auto

lemma held_nth: "i < length ws \<Longrightarrow> held (ws ! i) \<subseteq> \<Union> (held ` set ws)"
proof -
  assume "i < length ws"
  then have "ws ! i \<in> set ws" by (rule nth_mem)
  then show ?thesis by blast
qed

lemma list_all_update:
  "list_all P ws \<Longrightarrow> P w \<Longrightarrow> list_all P (ws[i := w])"
  using set_update_subset_insert [of ws i w] by (auto simp: list_all_iff)

lemma no_busy_all_get:
  assumes "list_all (\<lambda>w. w = W_Get \<or> busy w) ws" and "length (filter busy ws) = 0"
  shows "list_all (\<lambda>w. w = W_Get \<or> w = W_Returned) ws"
proof -
  from assms(2) have "\<forall>w \<in> set ws. \<not> busy w" by (simp add: filter_empty_conv)
  with assms(1) show ?thesis by (auto simp: list_all_iff)
qed

lemma busy_count_pos: "i < length ws \<Longrightarrow> busy (ws ! i) \<Longrightarrow> 0 < length (filter busy ws)"
  by (auto simp: filter_empty_conv)


lemma consistentD:
  assumes "consistent c"
  shows "finite (start_urls (crawler_state c))"
    and "unfinished_tasks (crawler_state c) =
           length (todo (crawler_state c)) + length (filter busy (workers c))"
    and "set (todo (crawler_state c)) \<subseteq> seen (crawler_state c)"
    and "\<Union> (held ` set (workers c)) \<subseteq> seen (crawler_state c)"
  using assms unfolding consistent_def by blast+

lemma consistent_start:
  assumes "consistent c" and "run_state c = Run_Start"
  shows "workers c = []"
proof -
  from assms(1) have "case run_state c of
        Run_Start \<Rightarrow> workers c = []
      | Run_Join \<Rightarrow>
          length (workers c) = nat (num_workers (crawler_state c)) \<and>
          list_all (\<lambda>w. w = W_Get \<or> busy w) (workers c)
      | Run_Returned \<Rightarrow>
          length (workers c) = nat (num_workers (crawler_state c)) \<and>
          unfinished_tasks (crawler_state c) = 0 \<and>
          list_all (\<lambda>w. w = W_Get \<or> w = W_Returned) (workers c)"
    unfolding consistent_def by blast
  with assms(2) show ?thesis by simp
qed

lemma consistent_joining:
  assumes "consistent c" and "run_state c = Run_Join"
  shows "length (workers c) = nat (num_workers (crawler_state c))"
    and "list_all (\<lambda>w. w = W_Get \<or> busy w) (workers c)"
proof -
  from assms(1) have "case run_state c of
        Run_Start \<Rightarrow> workers c = []
      | Run_Join \<Rightarrow>
          length (workers c) = nat (num_workers (crawler_state c)) \<and>
          list_all (\<lambda>w. w = W_Get \<or> busy w) (workers c)
      | Run_Returned \<Rightarrow>
          length (workers c) = nat (num_workers (crawler_state c)) \<and>
          unfinished_tasks (crawler_state c) = 0 \<and>
          list_all (\<lambda>w. w = W_Get \<or> w = W_Returned) (workers c)"
    unfolding consistent_def by blast
  with assms(2) show "length (workers c) = nat (num_workers (crawler_state c))"
    and "list_all (\<lambda>w. w = W_Get \<or> busy w) (workers c)" by simp_all
qed

lemma consistent_returned:
  assumes "consistent c" and "run_state c = Run_Returned"
  shows "length (workers c) = nat (num_workers (crawler_state c))"
    and "unfinished_tasks (crawler_state c) = 0"
    and "list_all (\<lambda>w. w = W_Get \<or> w = W_Returned) (workers c)"
proof -
  from assms(1) have "case run_state c of
        Run_Start \<Rightarrow> workers c = []
      | Run_Join \<Rightarrow>
          length (workers c) = nat (num_workers (crawler_state c)) \<and>
          list_all (\<lambda>w. w = W_Get \<or> busy w) (workers c)
      | Run_Returned \<Rightarrow>
          length (workers c) = nat (num_workers (crawler_state c)) \<and>
          unfinished_tasks (crawler_state c) = 0 \<and>
          list_all (\<lambda>w. w = W_Get \<or> w = W_Returned) (workers c)"
    unfolding consistent_def by blast
  with assms(2) show "length (workers c) = nat (num_workers (crawler_state c))"
    and "unfinished_tasks (crawler_state c) = 0"
    and "list_all (\<lambda>w. w = W_Get \<or> w = W_Returned) (workers c)" by simp_all
qed

lemma consistent_initial:
  assumes "Crawler_init urls n lim = Inr s0"
  shows "consistent (initial s0)"
  using assms by (auto simp: Crawler_init_def consistent_def initial_def)

lemma consistent_seed:
  assumes "consistent c" and "run_state c = Run_Start"
    and "is_iteration (start_urls (crawler_state c) - seen (crawler_state c)) order"
    and "s' = snd (on_found_links (crawler_state c) (start_urls (crawler_state c)) order)"
  shows "consistent \<lparr>crawler_state = s', run_state = Run_Join,
                     workers = replicate (nat (num_workers s')) W_Get\<rparr>"
proof -
  let ?s = "crawler_state c"
  let ?k = "nat (limit ?s - total ?s)"
  note f = seed_summary [OF assms(3) assms(4)]
  from assms(1,2) have w: "workers c = []" and fin: "finite (start_urls ?s)"
    and u: "unfinished_tasks ?s = length (todo ?s)" and h: "set (todo ?s) \<subseteq> seen ?s"
    by (simp_all add: consistent_def)
  have "set (take ?k order) \<subseteq> set order" by (rule set_take_subset)
  with h f have h': "set (todo s') \<subseteq> seen s'" by auto
  have b: "filter busy (replicate (nat (num_workers s')) W_Get) = []" by simp
  have a: "list_all (\<lambda>w. w = W_Get \<or> busy w) (replicate (nat (num_workers s')) W_Get)"
    by (simp add: list_all_iff)
  have hw: "\<Union> (held ` set (replicate (nat (num_workers s')) W_Get)) = {}" by auto
  from f fin u h' b a hw show ?thesis by (simp add: consistent_def)
qed

lemma consistent_join:
  assumes "consistent c" and "run_state c = Run_Join" and "unfinished_tasks (crawler_state c) = 0"
  shows "consistent (c\<lparr>run_state := Run_Returned\<rparr>)"
proof -
  from assms have a: "list_all (\<lambda>w. w = W_Get \<or> busy w) (workers c)"
    and b: "length (filter busy (workers c)) = 0"
    by (simp_all add: consistent_def)
  from no_busy_all_get [OF a b] assms show ?thesis by (simp add: consistent_def)
qed

lemma consistent_get:
  assumes "consistent c" and "run_state c = Run_Join" and "i < length (workers c)"
    and "workers c ! i = W_Get" and "todo (crawler_state c) = url # rest"
  shows "consistent (c\<lparr>crawler_state := (crawler_state c)\<lparr>todo := rest\<rparr>,
                       workers := (workers c)[i := W_Sleep url]\<rparr>)"
proof -
  from busy_count_update [OF assms(3), of "W_Sleep url"] assms(4)
  have b: "length (filter busy ((workers c)[i := W_Sleep url])) = length (filter busy (workers c)) + 1"
    by simp
  from assms(1,2) have "list_all (\<lambda>w. w = W_Get \<or> busy w) (workers c)"
    by (simp add: consistent_def)
  then have a: "list_all (\<lambda>w. w = W_Get \<or> busy w) ((workers c)[i := W_Sleep url])"
    by (rule list_all_update) simp
  from assms(1,5) have "insert url (set rest) \<union> \<Union> (held ` set (workers c)) \<subseteq> seen (crawler_state c)"
    by (simp add: consistent_def)
  with held_update [of "workers c" i "W_Sleep url"]
  have h: "set rest \<union> \<Union> (held ` set ((workers c)[i := W_Sleep url])) \<subseteq> seen (crawler_state c)"
    by auto
  from assms(1,2,5) a b h show ?thesis by (simp add: consistent_def)
qed

lemma consistent_sleep:
  assumes "consistent c" and "run_state c = Run_Join" and "i < length (workers c)"
    and "workers c ! i = W_Sleep url"
  shows "consistent (c\<lparr>workers := (workers c)[i := W_Fetch url]\<rparr>)"
proof -
  from busy_count_update [OF assms(3), of "W_Fetch url"] assms(4)
  have b: "length (filter busy ((workers c)[i := W_Fetch url])) = length (filter busy (workers c))"
    by simp
  from assms(1,2) have "list_all (\<lambda>w. w = W_Get \<or> busy w) (workers c)"
    by (simp add: consistent_def)
  then have a: "list_all (\<lambda>w. w = W_Get \<or> busy w) ((workers c)[i := W_Fetch url])"
    by (rule list_all_update) simp
  from held_nth [OF assms(3)] assms(4) have "url \<in> \<Union> (held ` set (workers c))" by simp
  with held_update [of "workers c" i "W_Fetch url"]
  have "\<Union> (held ` set ((workers c)[i := W_Fetch url])) \<subseteq> \<Union> (held ` set (workers c))"
    by auto
  with assms(1)
  have h: "set (todo (crawler_state c)) \<union> \<Union> (held ` set ((workers c)[i := W_Fetch url]))
           \<subseteq> seen (crawler_state c)"
    by (auto simp: consistent_def)
  from assms(1,2) a b h show ?thesis by (simp add: consistent_def)
qed


lemma consistent_respond:
  assumes "consistent c" and "run_state c = Run_Join" and "i < length (workers c)"
    and "workers c ! i = W_Fetch url"
    and "is_iteration (new_links E (crawler_state c) url) order"
    and "process_one E (crawler_state c) url order = (s', exc)"
  shows "exc = None \<and> consistent (c\<lparr>crawler_state := s', workers := (workers c)[i := W_Get]\<rparr>)"
proof -
  let ?s = "crawler_state c"
  let ?k = "nat (limit ?s - total ?s)"
  note f = process_one_summary [OF assms(6) assms(5)]
  from assms(1) have u: "unfinished_tasks ?s = length (todo ?s) + length (filter busy (workers c))"
    by (simp add: consistent_def)
  from busy_count_pos [OF assms(3)] assms(4) have p: "0 < length (filter busy (workers c))"
    by simp
  with u f have e: "exc = None" by auto
  from busy_count_update [OF assms(3), of W_Get] assms(4)
  have b: "length (filter busy ((workers c)[i := W_Get])) + 1 = length (filter busy (workers c))"
    by simp
  from f e u b
  have u': "unfinished_tasks s' = length (todo s') + length (filter busy ((workers c)[i := W_Get]))"
    by simp
  from assms(1,2) have "list_all (\<lambda>w. w = W_Get \<or> busy w) (workers c)"
    by (simp add: consistent_def)
  then have a: "list_all (\<lambda>w. w = W_Get \<or> busy w) ((workers c)[i := W_Get])"
    by (rule list_all_update) simp
  have t: "set (take ?k order) \<subseteq> set order" by (rule set_take_subset)
  from assms(1) have h0: "set (todo ?s) \<subseteq> seen ?s" "\<Union> (held ` set (workers c)) \<subseteq> seen ?s"
    by (simp_all add: consistent_def)
  from f have sn: "seen s' = seen ?s \<union> set order" and td: "todo s' = todo ?s @ take ?k order"
    by simp_all
  from t h0(1) have h1: "set (todo s') \<subseteq> seen s'" unfolding sn td by auto
  from held_update [of "workers c" i W_Get] h0(2)
  have h2: "\<Union> (held ` set ((workers c)[i := W_Get])) \<subseteq> seen s'" unfolding sn by auto
  from h1 h2 have h: "set (todo s') \<union> \<Union> (held ` set ((workers c)[i := W_Get])) \<subseteq> seen s'"
    by simp
  from assms(1,2) f have "finite (start_urls s')" "length (workers c) = nat (num_workers s')"
    by (simp_all add: consistent_def)
  with u' a h assms(2) have "consistent (c\<lparr>crawler_state := s', workers := (workers c)[i := W_Get]\<rparr>)"
    by (simp add: consistent_def)
  with e show ?thesis by simp
qed

lemma consistent_cancel_get:
  assumes "consistent c" and "run_state c = Run_Returned" and "i < length (workers c)"
    and "workers c ! i = W_Get"
  shows "consistent (c\<lparr>workers := (workers c)[i := W_Returned]\<rparr>)"
proof -
  note d = consistentD [OF assms(1)] and r = consistent_returned [OF assms(1,2)]
  from busy_count_update [OF assms(3), of W_Returned] assms(4)
  have b: "length (filter busy ((workers c)[i := W_Returned])) = length (filter busy (workers c))"
    by simp
  from r(3) have a: "list_all (\<lambda>w. w = W_Get \<or> w = W_Returned) ((workers c)[i := W_Returned])"
    by (rule list_all_update) simp
  from held_update [of "workers c" i W_Returned] d(4)
  have h: "\<Union> (held ` set ((workers c)[i := W_Returned])) \<subseteq> seen (crawler_state c)"
    by auto
  from d(2) r(2) b
  have u: "length (todo (crawler_state c)) + length (filter busy ((workers c)[i := W_Returned])) = 0"
    by simp
  show ?thesis
    unfolding consistent_def using d(1) d(3) h u r(1) r(2) a assms(2) by simp
qed

lemma returned_not_busy:
  assumes "consistent c" and "run_state c = Run_Returned" and "i < length (workers c)"
  shows "workers c ! i = W_Get \<or> workers c ! i = W_Returned"
proof -
  from assms(1,2) have "list_all (\<lambda>w. w = W_Get \<or> w = W_Returned) (workers c)"
    by (simp add: consistent_def)
  with nth_mem [OF assms(3)] show ?thesis by (auto simp: list_all_iff)
qed

lemma step_consistent:
  assumes "step E c es c'" and "consistent c"
  shows "consistent c'"
  using assms(1)
proof cases
  case (seed order s')
  from consistent_seed [OF assms(2) seed(3) seed(4) seed(5)] seed(2) show ?thesis by simp
next
  case join
  from consistent_join [OF assms(2) join(3) join(4)] join(2) show ?thesis by simp
next
  case (get i url rest)
  from consistent_get [OF assms(2) get(3) get(4) get(5) get(6)] get(2) show ?thesis by simp
next
  case (sleep i url)
  from consistent_sleep [OF assms(2) sleep(3) sleep(4) sleep(5)] sleep(2) show ?thesis by simp
next
  case (respond i url order s' exc)
  from consistent_respond [OF assms(2) respond(3) respond(4) respond(5) respond(6) respond(7)]
    respond(2) show ?thesis by simp
next
  case (cancel_get i)
  from consistent_cancel_get [OF assms(2) cancel_get(3) cancel_get(4) cancel_get(5)] cancel_get(2)
  show ?thesis by simp
next
  case (cancel_crawl i url)
  from returned_not_busy [OF assms(2) cancel_crawl(3) cancel_crawl(4)] cancel_crawl(5)
  show ?thesis by auto
qed

lemma execution_consistent:
  assumes "execution E c es c'" and "consistent c"
  shows "consistent c'"
  using assms by induction (auto intro: step_consistent)

lemma reachable_consistent:
  assumes "Crawler_init urls n lim = Inr s0" and "execution E (initial s0) es c"
  shows "consistent c"
  using execution_consistent [OF assms(2) consistent_initial [OF assms(1)]] .


lemma finite_handle_attrs:
  "handle_attrs f base attrs found = Inr L \<Longrightarrow> finite found \<Longrightarrow> finite L"
  by (induction f base attrs found rule: handle_attrs.induct)
    (auto split: if_splits sum.splits option.splits)

lemma finite_feed:
  "feed f base tags found = Inr L \<Longrightarrow> finite found \<Longrightarrow> finite L"
proof (induction f base tags found rule: feed.induct)
  case (1 f base found)
  then show ?case by simp
next
  case (2 f base tag attrs tags found)
  from "2.prems"(1) obtain found' where
    h: "handle_starttag f base tag attrs found = Inr found'" and r: "feed f base tags found' = Inr L"
    by (auto split: sum.splits)
  from h "2.prems"(2) have "finite found'"
    by (auto simp: handle_starttag_def dest: finite_handle_attrs split: if_splits)
  with "2.IH" h r show ?case by simp
qed

lemma finite_new_links: "finite (new_links E s url)"
  by (auto simp: new_links_def parse_links_def dest: finite_feed split: sum.splits)

lemma iteration_exists: "finite S \<Longrightarrow> \<exists>order. is_iteration S order"
  using finite_distinct_list [of S] by (auto simp: is_iteration_def)

lemma progress:
  assumes "consistent c" and "1 \<le> num_workers (crawler_state c)" and "\<not> stopped c"
  shows "\<exists>es c'. step E c es c'"
proof (cases "run_state c")
  case Run_Start
  from consistentD(1) [OF assms(1)]
  have "finite (start_urls (crawler_state c) - seen (crawler_state c))" by simp
  from iteration_exists [OF this] obtain order where
    "is_iteration (start_urls (crawler_state c) - seen (crawler_state c)) order" ..
  from step.seed [OF Run_Start this refl] show ?thesis by blast
next
  case Run_Join
  note j = consistent_joining [OF assms(1) Run_Join]
  show ?thesis
  proof (cases "\<exists>i < length (workers c). busy (workers c ! i)")
    case True
    then obtain i where i: "i < length (workers c)" and b: "busy (workers c ! i)" by blast
    show ?thesis
    proof (cases "workers c ! i")
      case (W_Sleep url)
      from step.sleep [OF Run_Join i W_Sleep] show ?thesis by blast
    next
      case (W_Fetch url)
      from iteration_exists [OF finite_new_links] obtain order where
        o: "is_iteration (new_links E (crawler_state c) url) order" ..
      obtain s' exc where "process_one E (crawler_state c) url order = (s', exc)"
        by (cases "process_one E (crawler_state c) url order")
      from step.respond [OF Run_Join i W_Fetch o this] show ?thesis by blast
    qed (use b in simp_all)
  next
    case False
    then have nb: "filter busy (workers c) = []" 
      by (auto simp: filter_empty_conv in_set_conv_nth)
    show ?thesis
    proof (cases "todo (crawler_state c)")
      case Nil
      with consistentD(2) [OF assms(1)] nb have "unfinished_tasks (crawler_state c) = 0" by simp
      from step.join [OF Run_Join this] show ?thesis by blast
    next
      case (Cons url rest)
      from j(1) assms(2) have l: "0 < length (workers c)" by simp
      from j(2) l have "workers c ! 0 = W_Get \<or> busy (workers c ! 0)"
        by (auto simp: list_all_iff)
      with False l have "workers c ! 0 = W_Get" by blast
      from step.get [OF Run_Join l this Cons] show ?thesis by blast
    qed
  qed
next
  case Run_Returned
  with assms(3) have "\<not> list_all (\<lambda>w. w = W_Returned) (workers c)" by (simp add: stopped_def)
  then obtain i where i: "i < length (workers c)" and n: "workers c ! i \<noteq> W_Returned"
    by (auto simp: list_all_iff in_set_conv_nth)
  from returned_not_busy [OF assms(1) Run_Returned i] n have "workers c ! i = W_Get" by simp
  from step.cancel_get [OF Run_Returned i this] show ?thesis by blast
qed

lemma rank_update_less:
  assumes "i < length ws" and "worker_rank w < worker_rank (ws ! i)"
  shows "sum_list (map worker_rank (ws[i := w])) < sum_list (map worker_rank ws)"
  using rank_update [OF assms(1), of w] assms(2) by simp

lemma step_measure:
  assumes "step E c es c'"
  shows "(c', c) \<in> measures [run_rank, budget_left, queue_length, workers_rank]"
  using assms
proof cases
  case (seed order s')
  then show ?thesis by (simp add: run_rank_def)
next
  case join
  then show ?thesis by (simp add: run_rank_def)
next
  case (get i url rest)
  then show ?thesis by (simp add: run_rank_def budget_left_def queue_length_def)
next
  case (sleep i url)
  from rank_update_less [OF sleep(4), of "W_Fetch url"] sleep(5)
  have "sum_list (map worker_rank ((workers c)[i := W_Fetch url])) < sum_list (map worker_rank (workers c))"
    by simp
  with sleep(2) show ?thesis
    by (simp add: run_rank_def budget_left_def queue_length_def workers_rank_def)
next
  case (respond i url order s' exc)
  let ?s = "crawler_state c"
  let ?w = "case exc of None \<Rightarrow> W_Get | Some e \<Rightarrow> W_Raised e"
  note f = process_one_summary [OF respond(7) respond(6)]
  have "worker_rank ?w < worker_rank (workers c ! i)"
    using respond(5) by (cases exc) simp_all
  from rank_update_less [OF respond(4) this]
  have r: "sum_list (map worker_rank ((workers c)[i := ?w])) < sum_list (map worker_rank (workers c))" .
  show ?thesis
  proof (cases "take (nat (limit ?s - total ?s)) order = []")
    case True
    with f have "total s' = total ?s" "todo s' = todo ?s" "limit s' = limit ?s" by simp_all
    with r respond(2) show ?thesis
      by (simp add: run_rank_def budget_left_def queue_length_def workers_rank_def)
  next
    case False
    with take_budget [of ?s order] f
    have "total ?s < total s'" "total s' \<le> limit ?s" "limit s' = limit ?s" by simp_all
    then have "nat (limit s' - total s') < nat (limit ?s - total ?s)" by simp
    with respond(2) show ?thesis
      by (simp add: run_rank_def budget_left_def)
  qed
next
  case (cancel_get i)
  from rank_update_less [OF cancel_get(4), of W_Returned] cancel_get(5)
  have "sum_list (map worker_rank ((workers c)[i := W_Returned])) < sum_list (map worker_rank (workers c))"
    by simp
  with cancel_get(2) show ?thesis
    by (simp add: run_rank_def budget_left_def queue_length_def workers_rank_def)
next
  case (cancel_crawl i url)
  have r: "sum_list (map worker_rank ((workers c)[i := w])) < sum_list (map worker_rank (workers c))"
    if "worker_rank w = 0" for w
    using rank_update_less [OF cancel_crawl(4), of w] cancel_crawl(5) that by auto
  show ?thesis
  proof (cases "unfinished_tasks (crawler_state c) = 0")
    case True
    with cancel_crawl(2) r [of "W_Raised (Exception ''ValueError'')"] show ?thesis
      by (simp add: task_done_def run_rank_def budget_left_def queue_length_def workers_rank_def)
  next
    case False
    with cancel_crawl(2) r [of W_Returned] show ?thesis
      by (simp add: task_done_def run_rank_def budget_left_def queue_length_def workers_rank_def)
  qed
qed

lemma wf_step: "wf {(c', c). \<exists>es. step E c es c'}"
proof (rule wf_subset)
  show "wf (measures [run_rank, budget_left, queue_length, workers_rank])" by simp
  show "{(c', c). \<exists>es. step E c es c'} \<subseteq> measures [run_rank, budget_left, queue_length, workers_rank]"
    using step_measure by blast
qed

subsection \<open>The step relation and the step function agree\<close>

lemma fire_step:
  assumes "fire E a c = Some (es, c')"
  shows "step E c es c'"
proof (cases a)
  case (Seed order)
  with assms have r: "run_state c = Run_Start"
    and i: "is_iteration (start_urls (crawler_state c) - seen (crawler_state c)) order"
    by (auto simp: fire_def Let_def split: if_splits)
  from step.seed [OF r i refl] assms Seed r i show ?thesis
    by (simp add: fire_def Let_def)
next
  case Join
  with assms have r: "run_state c = Run_Join" and u: "unfinished_tasks (crawler_state c) = 0"
    by (auto simp: fire_def Let_def split: if_splits)
  from step.join [OF r u] assms Join r u show ?thesis
    by (simp add: fire_def Let_def)
next
  case (Get i)
  with assms have r: "run_state c = Run_Join" and i: "i < length (workers c)"
    and w: "workers c ! i = W_Get"
    by (auto simp: fire_def Let_def split: if_splits)
  from assms Get r i w obtain url rest where t: "todo (crawler_state c) = url # rest"
    by (cases "todo (crawler_state c)") (simp_all add: fire_def Let_def)
  from step.get [OF r i w t] assms Get r i w t show ?thesis
    by (simp add: fire_def Let_def)
next
  case (Sleep i)
  with assms have r: "run_state c = Run_Join" and i: "i < length (workers c)"
    by (auto simp: fire_def Let_def split: if_splits)
  from assms Sleep r i obtain url where w: "workers c ! i = W_Sleep url"
    by (cases "workers c ! i") (simp_all add: fire_def Let_def)
  from step.sleep [OF r i w] assms Sleep r i w show ?thesis
    by (simp add: fire_def Let_def)
next
  case (Respond i order)
  with assms have r: "run_state c = Run_Join" and i: "i < length (workers c)"
    by (auto simp: fire_def Let_def split: if_splits)
  from assms Respond r i obtain url where w: "workers c ! i = W_Fetch url"
    by (cases "workers c ! i") (simp_all add: fire_def Let_def)
  from assms Respond r i w have o: "is_iteration (new_links E (crawler_state c) url) order"
    by (simp add: fire_def Let_def split: if_splits)
  obtain s' exc where p: "process_one E (crawler_state c) url order = (s', exc)"
    by (cases "process_one E (crawler_state c) url order")
  from step.respond [OF r i w o p] assms Respond r i w o p show ?thesis
    by (simp add: fire_def Let_def)
next
  case (Cancel i)
  with assms have r: "run_state c = Run_Returned" and i: "i < length (workers c)"
    by (auto simp: fire_def Let_def split: if_splits)
  show ?thesis
  proof (cases "workers c ! i")
    case W_Get
    from step.cancel_get [OF r i W_Get] assms Cancel r i W_Get show ?thesis
      by (simp add: fire_def Let_def)
  next
    case (W_Sleep url)
    then have "workers c ! i = W_Sleep url \<or> workers c ! i = W_Fetch url" by simp
    from step.cancel_crawl [OF r i this] assms Cancel r i W_Sleep show ?thesis
      by (simp add: fire_def Let_def)
  next
    case (W_Fetch url)
    then have "workers c ! i = W_Sleep url \<or> workers c ! i = W_Fetch url" by simp
    from step.cancel_crawl [OF r i this] assms Cancel r i W_Fetch show ?thesis
      by (simp add: fire_def Let_def)
  next
    case W_Returned
    with assms Cancel r i show ?thesis by (simp add: fire_def Let_def)
  next
    case (W_Raised e)
    with assms Cancel r i show ?thesis by (simp add: fire_def Let_def)
  qed
qed

lemma step_fire:
  assumes "step E c es c'"
  shows "\<exists>a. fire E a c = Some (es, c')"
  using assms
proof cases
  case (seed order s')
  then have "fire E (Seed order) c = Some (es, c')" by (simp add: fire_def Let_def)
  then show ?thesis ..
next
  case join
  then have "fire E Join c = Some (es, c')" by (simp add: fire_def Let_def)
  then show ?thesis ..
next
  case (get i url rest)
  then have "fire E (Get i) c = Some (es, c')" by (simp add: fire_def Let_def)
  then show ?thesis ..
next
  case (sleep i url)
  then have "fire E (Sleep i) c = Some (es, c')" by (simp add: fire_def Let_def)
  then show ?thesis ..
next
  case (respond i url order s' exc)
  then have "fire E (Respond i order) c = Some (es, c')" by (simp add: fire_def Let_def)
  then show ?thesis ..
next
  case (cancel_get i)
  then have "fire E (Cancel i) c = Some (es, c')" by (simp add: fire_def Let_def)
  then show ?thesis ..
next
  case (cancel_crawl i url)
  then have "fire E (Cancel i) c = Some (es, c')" by (auto simp: fire_def Let_def)
  then show ?thesis ..
qed

lemma step_iff_fire: "step E c es c' \<longleftrightarrow> (\<exists>a. fire E a c = Some (es, c'))"
  using fire_step step_fire by blast

subsection \<open>Runs without workers\<close>

lemma no_workers_step:
  assumes "step E c es c'" and "workers c = []" and "num_workers (crawler_state c) \<le> 0"
  shows "workers c' = [] \<and> num_workers (crawler_state c') \<le> 0 \<and>
         todo (crawler_state c') = todo (crawler_state c) @ es \<and>
         run_state c' \<noteq> Run_Start"
  using assms(1)
proof cases
  case (seed order s')
  from seed_summary [OF seed(4) seed(5)] assms(3) seed(1,2) show ?thesis
    by (simp add: enqueued_def)
next
  case join
  with assms(2,3) show ?thesis by simp
qed (use assms(2) in simp_all)

lemma no_workers_step_urls:
  assumes "step E c es c'" and "workers c = []"
  shows "set es \<subseteq> start_urls (crawler_state c)"
  using assms(1)
proof cases
  case (seed order s')
  from seed(4) have o: "set order \<subseteq> start_urls (crawler_state c)"
    by (auto simp: is_iteration_def)
  have "set (take (nat (limit (crawler_state c) - total (crawler_state c))) order) \<subseteq> set order"
    by (rule set_take_subset)
  with o seed_summary [OF seed(4) seed(5)] seed(1) show ?thesis
    by (simp add: enqueued_def)
qed (use assms(2) in simp_all)

lemma no_workers_execution:
  assumes "execution E c es c'" and "workers c = []" and "num_workers (crawler_state c) \<le> 0"
  shows "workers c' = [] \<and> num_workers (crawler_state c') \<le> 0 \<and>
         todo (crawler_state c') = todo (crawler_state c) @ es"
  using assms
proof induction
  case exec_start
  then show ?case by simp
next
  case (exec_step c es c' es' c'')
  from exec_step.IH [OF exec_step.prems] no_workers_step [OF exec_step.hyps(2)]
  show ?case by simp
qed

lemma no_workers_execution_urls:
  assumes "execution E c es c'" and "workers c = []" and "num_workers (crawler_state c) \<le> 0"
  shows "set es \<subseteq> start_urls (crawler_state c)"
  using assms
proof induction
  case exec_start
  then show ?case by simp
next
  case (exec_step c es c' es' c'')
  from no_workers_execution [OF exec_step.hyps(1) exec_step.prems]
  have w: "workers c' = []" by simp
  from execution_summary [OF exec_step.hyps(1)]
  have "start_urls (crawler_state c') = start_urls (crawler_state c)"
    by (simp add: step_ok_def)
  with no_workers_step_urls [OF exec_step.hyps(2) w] exec_step.IH [OF exec_step.prems]
  show ?case by simp
qed

lemma run_started:
  assumes "execution E c es c'" and "es \<noteq> []"
  shows "run_state c' \<noteq> Run_Start"
  using assms
proof induction
  case exec_start
  then show ?case by simp
next
  case (exec_step c es c' es' c'')
  from exec_step.hyps(2) show ?case by cases (auto split: sum.splits)
qed

lemma no_workers_stuck:
  assumes "workers c = []" and "run_state c = Run_Join" and "unfinished_tasks (crawler_state c) \<noteq> 0"
  shows "\<not> step E c es c'"
proof
  assume "step E c es c'"
  then show False by cases (use assms in simp_all)
qed

lemma no_worker_seed:
  "step example_web
     (initial \<lparr>start_urls = {''A''}, todo = [], unfinished_tasks = 0, seen = {}, done_set = {},
               num_workers = 0, limit = 2, total = 0\<rparr>)
     [''A'']
     \<lparr>crawler_state =
        \<lparr>start_urls = {''A''}, todo = [''A''], unfinished_tasks = 1, seen = {''A''},
         done_set = {}, num_workers = 0, limit = 2, total = 1\<rparr>,
      run_state = Run_Join, workers = []\<rparr>"
  using step.seed [where E = example_web and order = "[''A'']"
    and c = "initial \<lparr>start_urls = {''A''}, todo = [], unfinished_tasks = 0, seen = {},
                      done_set = {}, num_workers = 0, limit = 2, total = 0\<rparr>"]
  by (simp add: initial_def is_iteration_def on_found_links_def put_todo_def enqueued_def)

lemma progress_idle:
  assumes "consistent c" and "workers c = []" and "todo (crawler_state c) = []"
    and "\<not> stopped c"
  shows "\<exists>es c'. step E c es c'"
proof (cases "run_state c")
  case Run_Start
  from consistentD(1) [OF assms(1)]
  have "finite (start_urls (crawler_state c) - seen (crawler_state c))" by simp
  from iteration_exists [OF this] obtain order where
    "is_iteration (start_urls (crawler_state c) - seen (crawler_state c)) order" ..
  from step.seed [OF Run_Start this refl] show ?thesis by blast
next
  case Run_Join
  from consistentD(2) [OF assms(1)] assms(2,3)
  have "unfinished_tasks (crawler_state c) = 0" by simp
  from step.join [OF Run_Join this] show ?thesis by blast
next
  case Run_Returned
  with assms(2,4) show ?thesis by (simp add: stopped_def)
qed

lemma stopped_final:
  assumes "consistent c" and "stopped c"
  shows "unfinished_tasks (crawler_state c) = 0 \<and> todo (crawler_state c) = [] \<and>
         \<not> (\<exists>es' c'. step E c es' c')"
proof -
  from assms(2) have r: "run_state c = Run_Returned"
    and a: "list_all (\<lambda>w. w = W_Returned) (workers c)"
    by (simp_all add: stopped_def)
  from consistent_returned(2) [OF assms(1) r] consistentD(2) [OF assms(1)]
  have u: "unfinished_tasks (crawler_state c) = 0" and t: "todo (crawler_state c) = []"
    by simp_all
  have "\<not> step E c es' c'" for es' c'
  proof
    assume "step E c es' c'"
    then show False
    proof cases
      case (cancel_get i)
      from a nth_mem [OF cancel_get(4)] cancel_get(5) show False
        by (auto simp: list_all_iff)
    next
      case (cancel_crawl i url)
      from a nth_mem [OF cancel_crawl(4)] cancel_crawl(5) show False
        by (auto simp: list_all_iff)
    qed (use r in simp_all)
  qed
  with u t show ?thesis by blast
qed

text \<open>
  Claim C3 as stated fails. A crawler is constructed with no worker, a start address and
  a limit of two; the constructor accepts it. \<^verbatim>\<open>run\<close> admits the address and waits in
  \<^verbatim>\<open>todo.join()\<close>: the state is reached, \<^verbatim>\<open>run\<close> has not returned, and no step is possible.
\<close>

theorem run_terminates_counterexample:
  "Crawler_init [''A''] 0 2 =
     Inr \<lparr>start_urls = {''A''}, todo = [], unfinished_tasks = 0, seen = {}, done_set = {},
          num_workers = 0, limit = 2, total = 0\<rparr> \<and>
   execution example_web
     (initial \<lparr>start_urls = {''A''}, todo = [], unfinished_tasks = 0, seen = {}, done_set = {},
               num_workers = 0, limit = 2, total = 0\<rparr>)
     [''A'']
     \<lparr>crawler_state =
        \<lparr>start_urls = {''A''}, todo = [''A''], unfinished_tasks = 1, seen = {''A''},
         done_set = {}, num_workers = 0, limit = 2, total = 1\<rparr>,
      run_state = Run_Join, workers = []\<rparr> \<and>
   \<not> stopped
     \<lparr>crawler_state =
        \<lparr>start_urls = {''A''}, todo = [''A''], unfinished_tasks = 1, seen = {''A''},
         done_set = {}, num_workers = 0, limit = 2, total = 1\<rparr>,
      run_state = Run_Join, workers = []\<rparr> \<and>
   \<not> (\<exists>es' c'. step example_web
     \<lparr>crawler_state =
        \<lparr>start_urls = {''A''}, todo = [''A''], unfinished_tasks = 1, seen = {''A''},
         done_set = {}, num_workers = 0, limit = 2, total = 1\<rparr>,
      run_state = Run_Join, workers = []\<rparr> es' c')"
proof -
  let ?c = "\<lparr>crawler_state =
        \<lparr>start_urls = {''A''}, todo = [''A''], unfinished_tasks = 1, seen = {''A''},
         done_set = {}, num_workers = 0, limit = 2, total = 1\<rparr>,
      run_state = Run_Join, workers = []\<rparr>"
  have "\<not> step example_web ?c es' c'" for es' c'
    by (rule no_workers_stuck) simp_all
  then have "\<not> (\<exists>es' c'. step example_web ?c es' c')" by blast
  with execution_single [OF no_worker_seed] show ?thesis
    by (simp add: Crawler_init_def stopped_def)
qed

text \<open>
  Claim C3, amended. Every run is finite: the steps of the event loop decrease a
  well-founded order, whatever the web and the configuration, so in particular for a
  finite, closed link graph (the budget bounds the admissions, and a page has finitely
  many links). A state in which \<^verbatim>\<open>run\<close> has returned from \<^verbatim>\<open>todo.join()\<close> and every worker
  has returned has nothing queued or unfinished and no step left: no worker is blocked.
  A run reaches such a state, being able to take a further step in every other state,
  when the crawler has at least one worker, or when it admits nothing because it has no
  start address or a limit of zero or less. Otherwise, with no worker, a start address
  and a positive limit, a run reaches a state where \<^verbatim>\<open>run\<close> waits in \<^verbatim>\<open>todo.join()\<close> with
  no step possible, and does not terminate.
\<close>

theorem run_terminates:
  assumes "Crawler_init urls n lim = Inr s0"
  shows "wf {(c', c). \<exists>es. step E c es c'} \<and>
         (\<forall>es c. execution E (initial s0) es c \<longrightarrow> stopped c \<longrightarrow>
            unfinished_tasks (crawler_state c) = 0 \<and> todo (crawler_state c) = [] \<and>
            \<not> (\<exists>es' c'. step E c es' c')) \<and>
         (1 \<le> n \<or> set urls = {} \<or> lim \<le> 0 \<longrightarrow>
            (\<forall>es c. execution E (initial s0) es c \<longrightarrow>
               stopped c \<or> (\<exists>es' c'. step E c es' c'))) \<and>
         (n \<le> 0 \<and> set urls \<noteq> {} \<and> 0 < lim \<longrightarrow>
            (\<exists>es c. execution E (initial s0) es c \<and> \<not> stopped c \<and>
               \<not> (\<exists>es' c'. step E c es' c')))"
proof -
  from assms have s0: "num_workers s0 = n" "limit s0 = lim" "total s0 = 0"
    "start_urls s0 = set urls" "seen s0 = {}" "todo s0 = []"
    by (auto simp: Crawler_init_def)
  have fin: "unfinished_tasks (crawler_state c) = 0 \<and> todo (crawler_state c) = [] \<and>
             \<not> (\<exists>es' c'. step E c es' c')"
    if "execution E (initial s0) es c" and "stopped c" for es c
    using stopped_final [OF reachable_consistent [OF assms that(1)] that(2)] .
  have prog: "stopped c \<or> (\<exists>es' c'. step E c es' c')"
    if h: "1 \<le> n \<or> set urls = {} \<or> lim \<le> 0" and e: "execution E (initial s0) es c" for es c
  proof (cases "1 \<le> n")
    case True
    note k = reachable_consistent [OF assms e]
    from execution_summary [OF e] s0 have "num_workers (crawler_state c) = n"
      by (simp add: step_ok_def initial_def)
    with True have "1 \<le> num_workers (crawler_state c)" by simp
    from progress [OF k this] show ?thesis by blast
  next
    case False
    then have le: "num_workers (crawler_state (initial s0)) \<le> 0"
      using s0 by (simp add: initial_def)
    have w0: "workers (initial s0) = []" by (simp add: initial_def)
    note k = reachable_consistent [OF assms e]
    from no_workers_execution [OF e w0 le] s0
    have w: "workers c = []" and t: "todo (crawler_state c) = es"
      by (simp_all add: initial_def)
    from no_workers_execution_urls [OF e w0 le] s0
    have u: "set es \<subseteq> set urls" by (simp add: initial_def)
    from execution_summary [OF e] s0
    have b: "es = [] \<or> int (length es) \<le> lim"
      by (auto simp: step_ok_def initial_def)
    have "es = []"
    proof (cases "set urls = {}")
      case True
      with u show ?thesis by simp
    next
      case False
      with h \<open>\<not> 1 \<le> n\<close> have "lim \<le> 0" by simp
      with b show ?thesis by (cases es) auto
    qed
    with t have "todo (crawler_state c) = []" by simp
    from progress_idle [OF k w this] show ?thesis by blast
  qed
  have stuck: "\<exists>es c. execution E (initial s0) es c \<and> \<not> stopped c \<and>
                 \<not> (\<exists>es' c'. step E c es' c')"
    if h: "n \<le> 0 \<and> set urls \<noteq> {} \<and> 0 < lim"
  proof -
    let ?s = "crawler_state (initial s0)"
    have "finite (start_urls ?s - seen ?s)" using s0 by (simp add: initial_def)
    from iteration_exists [OF this] obtain order where
      o: "is_iteration (start_urls ?s - seen ?s) order" ..
    have r0: "run_state (initial s0) = Run_Start" by (simp add: initial_def)
    define s' where "s' = snd (on_found_links ?s (start_urls ?s) order)"
    define c where "c = \<lparr>crawler_state = s', run_state = Run_Join,
      workers = replicate (nat (num_workers s')) W_Get\<rparr>"
    from step.seed [OF r0 o s'_def]
    have st: "step E (initial s0) (enqueued ?s s') c" by (simp add: c_def)
    then have e: "execution E (initial s0) (enqueued ?s s') c" by (rule execution_single)
    from o s0 h have "order \<noteq> []" by (auto simp: is_iteration_def initial_def)
    moreover from h s0 have "0 < nat (limit ?s - total ?s)" by (simp add: initial_def)
    ultimately have "take (nat (limit ?s - total ?s)) order \<noteq> []" by simp
    with seed_summary [OF o s'_def] s0
    have ne: "todo s' \<noteq> []" by (simp add: initial_def)
    from seed_summary [OF o s'_def] s0 h have "num_workers s' \<le> 0"
      by (simp add: initial_def)
    then have w: "workers c = []" by (simp add: c_def)
    have r: "run_state c = Run_Join" by (simp add: c_def)
    from consistentD(2) [OF reachable_consistent [OF assms e]] w ne
    have u: "unfinished_tasks (crawler_state c) \<noteq> 0" by (simp add: c_def)
    have "\<not> step E c es' c'" for es' c'
      by (rule no_workers_stuck [OF w r u])
    then have "\<not> (\<exists>es' c'. step E c es' c')" by blast
    moreover from r have "\<not> stopped c" by (simp add: stopped_def)
    ultimately show ?thesis using e by blast
  qed
  from wf_step [of E] fin prog stuck show ?thesis by blast
qed

theorem run_terminates_witness:
  "wf {(c', c). \<exists>es. step example_web c es c'} \<and>
   stopped (example_system [] 0 {''A'', ''B'', ''X''} {''B'', ''A''} 2 Run_Returned [W_Returned]) \<and>
   \<not> (\<exists>es' c'. step example_web
         (example_system [] 0 {''A'', ''B'', ''X''} {''B'', ''A''} 2 Run_Returned [W_Returned]) es' c') \<and>
   (stopped (example_system [''B''] 1 {''A'', ''B'', ''X''} {''A''} 2 Run_Join [W_Get]) \<or>
    (\<exists>es' c'. step example_web
         (example_system [''B''] 1 {''A'', ''B'', ''X''} {''A''} 2 Run_Join [W_Get]) es' c')) \<and>
   (\<exists>es c. execution example_web
        (initial \<lparr>start_urls = {''A''}, todo = [], unfinished_tasks = 0, seen = {}, done_set = {},
                  num_workers = 0, limit = 2, total = 0\<rparr>) es c \<and>
      \<not> stopped c \<and> \<not> (\<exists>es' c'. step example_web c es' c'))"
proof -
  let ?d = "example_system [] 0 {''A'', ''B'', ''X''} {''B'', ''A''} 2 Run_Returned [W_Returned]"
  let ?c = "example_system [''B''] 1 {''A'', ''B'', ''X''} {''A''} 2 Run_Join [W_Get]"
  let ?s0 = "crawler_state (example_system [] 0 {} {} 0 Run_Start [])"
  have s: "stopped ?d"
    by (simp add: stopped_def example_system_def)
  have e: "execution example_web (initial ?s0) [''A'', ''B''] ?d"
    using example_run example_initial by simp
  have e': "execution example_web (initial ?s0) [''A'', ''B''] ?c"
    using example_run_to_limit example_initial by simp
  have h: "(1::int) \<le> 1 \<or> set [''A''] = {} \<or> (2::int) \<le> 0" by simp
  from run_terminates [OF example_init, of example_web]
  have a: "wf {(c', c). \<exists>es. step example_web c es c'}"
    and b: "\<forall>es c. execution example_web (initial ?s0) es c \<longrightarrow> stopped c \<longrightarrow>
            unfinished_tasks (crawler_state c) = 0 \<and> todo (crawler_state c) = [] \<and>
            \<not> (\<exists>es' c'. step example_web c es' c')"
    and p: "(1::int) \<le> 1 \<or> set [''A''] = {} \<or> (2::int) \<le> 0 \<longrightarrow>
            (\<forall>es c. execution example_web (initial ?s0) es c \<longrightarrow>
               stopped c \<or> (\<exists>es' c'. step example_web c es' c'))"
    by blast+
  from b e s have n: "\<not> (\<exists>es' c'. step example_web ?d es' c')" by blast
  from p h e' have q: "stopped ?c \<or> (\<exists>es' c'. step example_web ?c es' c')" by blast
  have i0: "Crawler_init [''A''] 0 2 =
              Inr \<lparr>start_urls = {''A''}, todo = [], unfinished_tasks = 0, seen = {}, done_set = {},
                   num_workers = 0, limit = 2, total = 0\<rparr>"
    by (simp add: Crawler_init_def)
  have h0: "(0::int) \<le> 0 \<and> set [''A''] \<noteq> {} \<and> (0::int) < 2" by simp
  from run_terminates [OF i0, of example_web] h0
  have z: "\<exists>es c. execution example_web
        (initial \<lparr>start_urls = {''A''}, todo = [], unfinished_tasks = 0, seen = {}, done_set = {},
                  num_workers = 0, limit = 2, total = 0\<rparr>) es c \<and>
      \<not> stopped c \<and> \<not> (\<exists>es' c'. step example_web c es' c')"
    by blast
  from a s n q z show ?thesis by blast
qed

subsection \<open>The pipeline of one address\<close>

lemma handle_attrs_Inr:
  "handle_attrs f base attrs found = Inr L \<Longrightarrow>
   L = found \<union> {x. \<exists>v. (''href'', v) \<in> set attrs \<and> f base v = Inr (Some x)}"
proof (induction f base attrs found arbitrary: L rule: handle_attrs.induct)
  case (1 f base found)
  then show ?case by simp
next
  case (2 f base attr url attrs found)
  show ?case
  proof (cases "attr = ''href''")
    case False
    with "2.prems" "2.IH"(1) [of L] show ?thesis by auto
  next
    case True
    show ?thesis
    proof (cases "f base url")
      case (Inl e)
      with True "2.prems" show ?thesis by simp
    next
      case (Inr r)
      show ?thesis
      proof (cases r)
        case None
        with True Inr "2.prems" "2.IH"(2) [of None L] show ?thesis by auto
      next
        case (Some u)
        with True Inr "2.prems" "2.IH"(3) [of "Some u" u L] show ?thesis by auto
      qed
    qed
  qed
qed

lemma feed_Inr:
  "feed f base tags found = Inr L \<Longrightarrow>
   L = found \<union> {x. \<exists>attrs v. (''a'', attrs) \<in> set tags \<and> (''href'', v) \<in> set attrs \<and>
                           f base v = Inr (Some x)}"
proof (induction f base tags found arbitrary: L rule: feed.induct)
  case (1 f base found)
  then show ?case by simp
next
  case (2 f base tag attrs tags found)
  from "2.prems" obtain found' where
    h: "handle_starttag f base tag attrs found = Inr found'" and r: "feed f base tags found' = Inr L"
    by (auto split: sum.splits)
  from "2.IH" [OF h r]
  have l: "L = found' \<union> {x. \<exists>attrs v. (''a'', attrs) \<in> set tags \<and> (''href'', v) \<in> set attrs \<and>
                                    f base v = Inr (Some x)}" .
  show ?case
  proof (cases "tag = ''a''")
    case False
    with h have "found' = found" by (simp add: handle_starttag_def)
    with l False show ?thesis by auto
  next
    case True
    with h have "handle_attrs f base attrs found = Inr found'" by (simp add: handle_starttag_def)
    from handle_attrs_Inr [OF this]
    have "found' = found \<union> {x. \<exists>v. (''href'', v) \<in> set attrs \<and> f base v = Inr (Some x)}" .
    with l True show ?thesis by auto
  qed
qed

text \<open>
  Claim C7. When the request for \<open>url\<close> is answered by \<open>response\<close>, the links that
  \<^verbatim>\<open>crawl\<close> extracts and proposes are the answers of the scope filter called with the
  address of the final response, \<^verbatim>\<open>str(response.url)\<close>, as base, on the \<^verbatim>\<open>href\<close> values of
  the document's anchors. The requested address is not used as base; \<^verbatim>\<open>crawl\<close> only adds
  it to the done-set.
\<close>

theorem crawl_uses_final_address:
  assumes "client_get E url = Inr response"
    and "parse_links E (response_url response) (response_text response) = Inr found_links"
  shows "found_links =
           {x. \<exists>attrs v. (''a'', attrs) \<in> set (starttags E (response_text response)) \<and>
                         (''href'', v) \<in> set attrs \<and>
                         crawler_filter_url E (response_url response) v = Inr (Some x)} \<and>
         new_links E s url = found_links - seen s \<and>
         crawl E s url order =
           Inr ((snd (on_found_links s found_links order))
                  \<lparr>done_set := insert url (done_set (snd (on_found_links s found_links order)))\<rparr>)"
proof -
  from assms(2) feed_Inr [of "crawler_filter_url E" "response_url response"
      "starttags E (response_text response)" "{}" found_links]
  have "found_links =
          {x. \<exists>attrs v. (''a'', attrs) \<in> set (starttags E (response_text response)) \<and>
                        (''href'', v) \<in> set attrs \<and>
                        crawler_filter_url E (response_url response) v = Inr (Some x)}"
    by (simp add: parse_links_def)
  moreover from assms have "new_links E s url = found_links - seen s"
    by (simp add: new_links_def)
  moreover from assms have "crawl E s url order =
           Inr ((snd (on_found_links s found_links order))
                  \<lparr>done_set := insert url (done_set (snd (on_found_links s found_links order)))\<rparr>)"
    by (simp add: crawl_def Let_def)
  ultimately show ?thesis by blast
qed

theorem crawl_uses_final_address_witness:
  "crawl redirect_web
     \<lparr>start_urls = {''http://localhost/old''}, todo = [], unfinished_tasks = 1,
      seen = {''http://localhost/old''}, done_set = {}, num_workers = 1, limit = 5, total = 1\<rparr>
     ''http://localhost/old'' [''http://localhost/new/page.html''] =
   Inr \<lparr>start_urls = {''http://localhost/old''}, todo = [''http://localhost/new/page.html''],
        unfinished_tasks = 2,
        seen = {''http://localhost/old'', ''http://localhost/new/page.html''},
        done_set = {''http://localhost/old''}, num_workers = 1, limit = 5, total = 2\<rparr>"
proof -
  have g: "client_get redirect_web ''http://localhost/old'' =
             Inr \<lparr>response_url = ''http://localhost/new/index.html'',
                  response_text = ''<a href=page.html>''\<rparr>"
    by (simp add: redirect_web_def)
  have p: "parse_links redirect_web
             (response_url \<lparr>response_url = ''http://localhost/new/index.html'',
                            response_text = ''<a href=page.html>''\<rparr>)
             (response_text \<lparr>response_url = ''http://localhost/new/index.html'',
                             response_text = ''<a href=page.html>''\<rparr>) =
           Inr {''http://localhost/new/page.html''}"
    by code_simp
  from crawl_uses_final_address [OF g p] show ?thesis
    by (simp add: on_found_links_def put_todo_def insert_commute)
qed

text \<open>
  Claim C8. A worker of a run waits for the answer to its request for \<open>url\<close>, and the
  pipeline of \<open>url\<close> raises: \<^verbatim>\<open>client.get\<close> fails, or \<^verbatim>\<open>parse_links\<close> does, which includes a
  filter that rejects a malformed address with an exception. Then \<^verbatim>\<open>process_one\<close> catches
  the exception and marks the item done; no exception leaves it. The worker's next step
  can only be that one: it enqueues nothing and puts the worker back before
  \<^verbatim>\<open>todo.get()\<close>, while \<^verbatim>\<open>run\<close> keeps waiting in \<^verbatim>\<open>join\<close>. The done-set, the seen-set, the
  queue and \<open>total\<close> are as before, so the address is not done, stays counted and adds
  no link; it is in the seen-set, and no later step of the run enqueues it again.
\<close>

theorem crawl_error_contained:
  assumes "Crawler_init urls n lim = Inr s0"
    and "execution E (initial s0) es c"
    and "i < length (workers c)"
    and "workers c ! i = W_Fetch url"
    and "crawl E (crawler_state c) url [] = Inl e"
  shows "(let s = crawler_state c;
              s' = s\<lparr>unfinished_tasks := unfinished_tasks s - 1\<rparr>;
              c' = c\<lparr>crawler_state := s', workers := (workers c)[i := W_Get]\<rparr>
          in process_one E s url [] = (s', None) \<and>
             step E c [] c' \<and>
             (\<forall>es' c''. step E c es' c'' \<longrightarrow>
                workers c'' ! i = W_Fetch url \<or> (es' = [] \<and> c'' = c')) \<and>
             run_state c' = Run_Join \<and>
             done_set s' = done_set s \<and> seen s' = seen s \<and> todo s' = todo s \<and>
             total s' = total s \<and> 0 < unfinished_tasks s \<and> url \<in> seen s' \<and>
             (\<forall>es' c''. execution E c' es' c'' \<longrightarrow> url \<notin> set es'))"
proof -
  define s where "s = crawler_state c"
  define s' where "s' = s\<lparr>unfinished_tasks := unfinished_tasks s - 1\<rparr>"
  define c' where "c' = c\<lparr>crawler_state := s', workers := (workers c)[i := W_Get]\<rparr>"
  note k = reachable_consistent [OF assms(1,2)]
  have r: "run_state c = Run_Join"
  proof (cases "run_state c")
    case Run_Start
    from consistent_start [OF k this] assms(3) show ?thesis by simp
  next
    case Run_Join
    then show ?thesis .
  next
    case Run_Returned
    from returned_not_busy [OF k this assms(3)] assms(4) show ?thesis by simp
  qed
  from busy_count_pos [OF assms(3)] assms(4) consistentD(2) [OF k]
  have u: "0 < unfinished_tasks s" by (simp add: s_def)
  from process_one_fail [OF assms(5)] u
  have p: "process_one E s url [] = (s', None)" by (simp add: s_def s'_def)
  from crawl_Inl [OF assms(5)] have n: "new_links E (crawler_state c) url = {}" .
  then have it: "is_iteration (new_links E (crawler_state c) url) []" by simp
  from step.respond [OF r assms(3) assms(4) it p [unfolded s_def]]
  have st: "step E c [] c'" by (simp add: enqueued_def s'_def s_def c'_def)
  have uniq: "workers c'' ! i = W_Fetch url \<or> (es' = [] \<and> c'' = c')"
    if "step E c es' c''" for es' c''
    using that
  proof cases
    case (seed order s1)
    with r show ?thesis by simp
  next
    case join
    with assms(4) show ?thesis by simp
  next
    case (get j url' rest)
    with assms(4) have "j \<noteq> i" by auto
    with get(2) assms(4) show ?thesis by simp
  next
    case (sleep j url')
    with assms(4) have "j \<noteq> i" by auto
    with sleep(2) assms(4) show ?thesis by simp
  next
    case (respond j url' order s1 exc)
    show ?thesis
    proof (cases "j = i")
      case False
      with respond(2) assms(4) show ?thesis by simp
    next
      case True
      with respond(5) assms(4) have e: "url' = url" by simp
      with respond(6) n have o: "order = []" by simp
      from respond(7) e o p have "s1 = s'" "exc = None" by (simp_all add: s_def)
      with respond(1,2) True show ?thesis
        by (simp add: enqueued_def s'_def s_def c'_def)
    qed
  next
    case (cancel_get j)
    with r show ?thesis by simp
  next
    case (cancel_crawl j url')
    with r show ?thesis by simp
  qed
  from held_nth [OF assms(3)] assms(4) consistentD(4) [OF k]
  have sn: "url \<in> seen s'" by (auto simp: s'_def s_def)
  have never: "url \<notin> set es'" if "execution E c' es' c''" for es' c''
    using execution_summary [OF that] sn by (auto simp: step_ok_def c'_def)
  have f: "run_state c' = Run_Join" "done_set s' = done_set s" "seen s' = seen s"
    "todo s' = todo s" "total s' = total s"
    using r by (simp_all add: c'_def s'_def)
  from p st uniq f u sn never show ?thesis
    unfolding Let_def s_def [symmetric] s'_def [symmetric] c'_def [symmetric] by blast
qed

text \<open>
  On the small web, with the links of \<^verbatim>\<open>A\<close> iterated as \<^verbatim>\<open>X\<close>, \<^verbatim>\<open>B\<close>: the budget admits
  \<^verbatim>\<open>X\<close>, a worker requests it, and the request fails.
\<close>

lemma example_respond_A_other_order:
  "step example_web (example_system [] 1 {''A''} {} 1 Run_Join [W_Fetch ''A'']) [''X'']
     (example_system [''X''] 1 {''A'', ''B'', ''X''} {''A''} 2 Run_Join [W_Get])"
proof -
  have p: "process_one example_web
             (crawler_state (example_system [] 1 {''A''} {} 1 Run_Join [W_Fetch ''A'']))
             ''A'' [''X'', ''B''] =
           (crawler_state (example_system [''X''] 1 {''A'', ''B'', ''X''} {''A''} 2 Run_Join [W_Get]), None)"
    by code_simp
  have i: "is_iteration
             (new_links example_web
                (crawler_state (example_system [] 1 {''A''} {} 1 Run_Join [W_Fetch ''A''])) ''A'')
             [''X'', ''B'']"
    by code_simp
  from step.respond [where E = example_web and i = 0 and url = "''A''"
      and c = "example_system [] 1 {''A''} {} 1 Run_Join [W_Fetch ''A'']", OF _ _ _ i p]
  show ?thesis
    by (simp add: example_system_def enqueued_def)
qed

lemma example_get_X:
  "step example_web (example_system [''X''] 1 {''A'', ''B'', ''X''} {''A''} 2 Run_Join [W_Get]) []
     (example_system [] 1 {''A'', ''B'', ''X''} {''A''} 2 Run_Join [W_Sleep ''X''])"
  using step.get [where E = example_web and i = 0 and url = "''X''" and rest = "[]"
      and c = "example_system [''X''] 1 {''A'', ''B'', ''X''} {''A''} 2 Run_Join [W_Get]"]
  by (simp add: example_system_def)

lemma example_sleep_X:
  "step example_web (example_system [] 1 {''A'', ''B'', ''X''} {''A''} 2 Run_Join [W_Sleep ''X'']) []
     (example_system [] 1 {''A'', ''B'', ''X''} {''A''} 2 Run_Join [W_Fetch ''X''])"
  using step.sleep [where E = example_web and i = 0 and url = "''X''"
      and c = "example_system [] 1 {''A'', ''B'', ''X''} {''A''} 2 Run_Join [W_Sleep ''X'']"]
  by (simp add: example_system_def)

lemma example_run_to_failure:
  "execution example_web (example_system [] 0 {} {} 0 Run_Start []) [''A'', ''X'']
     (example_system [] 1 {''A'', ''B'', ''X''} {''A''} 2 Run_Join [W_Fetch ''X''])"
  using exec_step [OF exec_step [OF exec_step [OF exec_step [OF exec_step [OF
    execution_single [OF example_seed] example_get_A] example_sleep_A]
    example_respond_A_other_order] example_get_X] example_sleep_X]
  by simp

theorem crawl_error_contained_witness:
  "step example_web
     (example_system [] 1 {''A'', ''B'', ''X''} {''A''} 2 Run_Join [W_Fetch ''X'']) []
     (example_system [] 0 {''A'', ''B'', ''X''} {''A''} 2 Run_Join [W_Get]) \<and>
   ''X'' \<notin> done_set (crawler_state (example_system [] 0 {''A'', ''B'', ''X''} {''A''} 2 Run_Join [W_Get])) \<and>
   ''X'' \<in> seen (crawler_state (example_system [] 0 {''A'', ''B'', ''X''} {''A''} 2 Run_Join [W_Get]))"
proof -
  have l: "0 < length (workers (example_system [] 1 {''A'', ''B'', ''X''} {''A''} 2 Run_Join [W_Fetch ''X'']))"
    by (simp add: example_system_def)
  have w: "workers (example_system [] 1 {''A'', ''B'', ''X''} {''A''} 2 Run_Join [W_Fetch ''X'']) ! 0 =
           W_Fetch ''X''"
    by (simp add: example_system_def)
  have f: "crawl example_web
             (crawler_state (example_system [] 1 {''A'', ''B'', ''X''} {''A''} 2 Run_Join [W_Fetch ''X'']))
             ''X'' [] = Inl (Exception ''ConnectError'')"
    by (simp add: crawl_def example_web_def)
  have e: "execution example_web
             (initial (crawler_state (example_system [] 0 {} {} 0 Run_Start []))) [''A'', ''X'']
             (example_system [] 1 {''A'', ''B'', ''X''} {''A''} 2 Run_Join [W_Fetch ''X''])"
    using example_run_to_failure example_initial by simp
  from crawl_error_contained [OF example_init e l w f]
  have "step example_web
          (example_system [] 1 {''A'', ''B'', ''X''} {''A''} 2 Run_Join [W_Fetch ''X'']) []
          (example_system [] 0 {''A'', ''B'', ''X''} {''A''} 2 Run_Join [W_Get])"
    by (simp add: Let_def example_system_def)
  then show ?thesis by (simp add: example_system_def)
qed

subsection \<open>Configuration\<close>

text \<open>
  Claim C9 as stated fails. A crawler is constructed with no worker: the constructor
  returns it, and \<^verbatim>\<open>run\<close> starts and admits the start address.
\<close>

theorem no_configuration_check_counterexample:
  "Crawler_init [''A''] 0 2 =
     Inr \<lparr>start_urls = {''A''}, todo = [], unfinished_tasks = 0, seen = {}, done_set = {},
          num_workers = 0, limit = 2, total = 0\<rparr> \<and>
   step example_web
     (initial \<lparr>start_urls = {''A''}, todo = [], unfinished_tasks = 0, seen = {}, done_set = {},
               num_workers = 0, limit = 2, total = 0\<rparr>)
     [''A'']
     \<lparr>crawler_state =
        \<lparr>start_urls = {''A''}, todo = [''A''], unfinished_tasks = 1, seen = {''A''},
         done_set = {}, num_workers = 0, limit = 2, total = 1\<rparr>,
      run_state = Run_Join, workers = []\<rparr>"
  using no_worker_seed by (simp add: Crawler_init_def)

text \<open>
  Claim C9, amended. No configuration is refused: the constructor returns a crawler for
  every worker count and limit and keeps both as given, and \<^verbatim>\<open>run\<close> creates
  \<^verbatim>\<open>range(num_workers)\<close> workers, none for a count of zero or less. With such a count no
  worker exists at any moment of the run, and once an address is admitted the run is
  stuck in \<^verbatim>\<open>todo.join()\<close>: no step is possible and \<^verbatim>\<open>run\<close> never returns.
\<close>

theorem no_configuration_check:
  "\<exists>s0. Crawler_init urls n lim = Inr s0 \<and> num_workers s0 = n \<and> limit s0 = lim \<and>
     (\<forall>E es c. execution E (initial s0) es c \<longrightarrow>
        (run_state c = Run_Start \<longrightarrow> workers c = []) \<and>
        (run_state c \<noteq> Run_Start \<longrightarrow> length (workers c) = nat n) \<and>
        (n \<le> 0 \<longrightarrow> workers c = [] \<and>
           (es \<noteq> [] \<longrightarrow> run_state c = Run_Join \<and> \<not> (\<exists>es' c'. step E c es' c'))))"
proof -
  define s0 where "s0 = \<lparr>start_urls = set urls, todo = [], unfinished_tasks = 0, seen = {},
    done_set = {}, num_workers = n, limit = lim, total = 0\<rparr>"
  have i: "Crawler_init urls n lim = Inr s0" by (simp add: Crawler_init_def s0_def)
  have "(run_state c = Run_Start \<longrightarrow> workers c = []) \<and>
        (run_state c \<noteq> Run_Start \<longrightarrow> length (workers c) = nat n) \<and>
        (n \<le> 0 \<longrightarrow> workers c = [] \<and>
           (es \<noteq> [] \<longrightarrow> run_state c = Run_Join \<and> \<not> (\<exists>es' c'. step E c es' c')))"
    if e: "execution E (initial s0) es c" for E es c
  proof -
    note k = reachable_consistent [OF i e]
    from execution_summary [OF e] have nw: "num_workers (crawler_state c) = n"
      by (simp add: step_ok_def initial_def s0_def)
    have a: "run_state c = Run_Start \<longrightarrow> workers c = []"
      using consistent_start [OF k] by blast
    have b: "run_state c \<noteq> Run_Start \<longrightarrow> length (workers c) = nat n"
      using consistent_joining(1) [OF k] consistent_returned(1) [OF k] nw
      by (cases "run_state c") simp_all
    have d: "workers c = [] \<and>
             (es \<noteq> [] \<longrightarrow> run_state c = Run_Join \<and> \<not> (\<exists>es' c'. step E c es' c'))"
      if le: "n \<le> 0"
    proof -
      from no_workers_execution [OF e] le
      have w: "workers c = []" and t: "todo (crawler_state c) = es"
        by (simp_all add: initial_def s0_def)
      have "run_state c = Run_Join \<and> \<not> (\<exists>es' c'. step E c es' c')" if ne: "es \<noteq> []"
      proof -
        from consistentD(2) [OF k] t w ne have u: "unfinished_tasks (crawler_state c) \<noteq> 0"
          by simp
        from run_started [OF e ne] consistent_returned(2) [OF k] u
        have r: "run_state c = Run_Join" by (cases "run_state c") simp_all
        from no_workers_stuck [OF w r u] r show ?thesis by blast
      qed
      with w show ?thesis by blast
    qed
    from a b d show ?thesis by blast
  qed
  with i show ?thesis by (auto simp: s0_def)
qed

theorem no_configuration_check_witness:
  "\<exists>s0. Crawler_init [''A''] 0 2 = Inr s0 \<and> num_workers s0 = 0 \<and>
     \<not> (\<exists>es' c'. step example_web
          \<lparr>crawler_state =
             \<lparr>start_urls = {''A''}, todo = [''A''], unfinished_tasks = 1, seen = {''A''},
              done_set = {}, num_workers = 0, limit = 2, total = 1\<rparr>,
           run_state = Run_Join, workers = []\<rparr> es' c')"
proof -
  from no_configuration_check [of "[''A'']" 0 2] obtain s0 where
    i: "Crawler_init [''A''] 0 2 = Inr s0" and n: "num_workers s0 = 0" and
    r: "\<forall>E es c. execution E (initial s0) es c \<longrightarrow>
        (run_state c = Run_Start \<longrightarrow> workers c = []) \<and>
        (run_state c \<noteq> Run_Start \<longrightarrow> length (workers c) = nat 0) \<and>
        ((0::int) \<le> 0 \<longrightarrow> workers c = [] \<and>
           (es \<noteq> [] \<longrightarrow> run_state c = Run_Join \<and> \<not> (\<exists>es' c'. step E c es' c')))"
    by blast
  from i have s0: "s0 = \<lparr>start_urls = {''A''}, todo = [], unfinished_tasks = 0, seen = {},
      done_set = {}, num_workers = 0, limit = 2, total = 0\<rparr>"
    by (simp add: Crawler_init_def)
  from no_worker_seed
  have "step example_web (initial s0) [''A'']
     \<lparr>crawler_state =
        \<lparr>start_urls = {''A''}, todo = [''A''], unfinished_tasks = 1, seen = {''A''},
         done_set = {}, num_workers = 0, limit = 2, total = 1\<rparr>,
      run_state = Run_Join, workers = []\<rparr>"
    unfolding s0 by simp
  from execution_single [OF this] r
  have "\<not> (\<exists>es' c'. step example_web
          \<lparr>crawler_state =
             \<lparr>start_urls = {''A''}, todo = [''A''], unfinished_tasks = 1, seen = {''A''},
              done_set = {}, num_workers = 0, limit = 2, total = 1\<rparr>,
           run_state = Run_Join, workers = []\<rparr> es' c')"
    by blast
  with i n show ?thesis by blast
qed

end
